theory Spec2Isabelle
  imports Main "HOL-Library.Word"
begin


section \<open>Paths and strings\<close>

text \<open>
  An absolute, normalised POSIX path is the list of its segments: \<open>/r/a/x.jpg\<close> is
  \<open>[''r'', ''a'', ''x.jpg'']\<close> and \<open>/\<close> is \<open>[]\<close>.  Two such paths are the same string
  exactly when they are the same list, so the source's \<open>===\<close> on paths is \<open>=\<close> here.
\<close>

type_synonym path = "string list"

definition path_str :: "path \<Rightarrow> string" where
  "path_str p = (if p = [] then ''/'' else concat (map (\<lambda>s. CHR ''/'' # s) p))"

text \<open>\<open>String.prototype.split\<close> on a set of separator characters.\<close>

fun splitBy :: "(char \<Rightarrow> bool) \<Rightarrow> string \<Rightarrow> string list" where
  "splitBy P [] = [[]]"
| "splitBy P (c # cs) =
     (if P c then [] # splitBy P cs
      else (case splitBy P cs of [] \<Rightarrow> [[c]] | w # ws \<Rightarrow> (c # w) # ws))"

text \<open>\<open>path.join(dir, name)\<close>: the segments of \<open>name\<close> are resolved against \<open>dir\<close>.\<close>

definition norm_step :: "path \<Rightarrow> string \<Rightarrow> path" where
  "norm_step acc seg =
     (if seg = [] \<or> seg = ''.'' then acc
      else if seg = ''..'' then butlast acc
      else acc @ [seg])"

definition join :: "path \<Rightarrow> string \<Rightarrow> path" where
  "join dir name = foldl norm_step dir (splitBy (\<lambda>c. c = CHR ''/'') name)"

definition dirname :: "path \<Rightarrow> path" where
  "dirname p = butlast p"

definition basename :: "path \<Rightarrow> string" where
  "basename p = (if p = [] then [] else last p)"

text \<open>\<open>path.extname\<close> on a file name without slashes.\<close>

definition extname :: "string \<Rightarrow> string" where
  "extname name =
     (if CHR ''.'' \<notin> set name then []
      else let k = length name - Suc (length (takeWhile (\<lambda>c. c \<noteq> CHR ''.'') (rev name)))
           in if k = 0 \<or> name = ''..'' then [] else drop k name)"

definition splitNameAndExt :: "string \<Rightarrow> string \<times> string" where
  "splitNameAndExt filename =
     (let ext = extname filename;
          base = (if ext \<noteq> [] then take (length filename - length ext) filename else filename)
      in (base, ext))"

definition digit_char :: "nat \<Rightarrow> char" where
  "digit_char d = ''0123456789'' ! (d mod 10)"

fun show_nat :: "nat \<Rightarrow> string" where
  "show_nat n = (if n < 10 then [digit_char n] else show_nat (n div 10) @ [digit_char (n mod 10)])"

declare show_nat.simps [simp del]

definition show_int :: "int \<Rightarrow> string" where
  "show_int i = (if i < 0 then CHR ''-'' # show_nat (nat (- i)) else show_nat (nat i))"

definition padStart2 :: "string \<Rightarrow> string" where
  "padStart2 s = replicate (2 - length s) (CHR ''0'') @ s"

section \<open>The filesystem as the planner reads it\<close>

text \<open>
  \<open>getFullYear\<close>, \<open>getMonth\<close> (0 to 11) and \<open>getDate\<close> of the date that
  \<open>getFileDate\<close> resolves for a file.
\<close>

datatype jsdate = JsDate (getFullYear: int) (getMonth: nat) (getDate: nat)

text \<open>
  What \<open>stat\<close>, \<open>getFileDate\<close> and \<open>readFile\<close> find at a path: nothing, a regular file
  (its byte size, the MD5 digest of its content, its resolved date) or a directory.
\<close>

datatype fsnode = FileN (fsize: nat) (md5: string) (fdate: jsdate) | DirN

type_synonym fsview = "path \<Rightarrow> fsnode option"

datatype ioerror = ENOENT | EISDIR | ENOTDIR | EEXIST | ENOTEMPTY | EINVAL | EBUSY

definition fingerprint :: "nat \<Rightarrow> string \<Rightarrow> string" where
  "fingerprint sz digest = show_nat sz @ ''-'' @ digest"

text \<open>\<open>getFileHash(filePath, size)\<close>: reading a missing path or a directory throws.\<close>

definition getFileHash :: "fsview \<Rightarrow> path \<Rightarrow> ioerror + string" where
  "getFileHash fs p =
     (case fs p of
        None \<Rightarrow> Inl ENOENT
      | Some DirN \<Rightarrow> Inl EISDIR
      | Some (FileN sz digest d) \<Rightarrow> Inr (fingerprint sz digest))"

definition pathExists :: "fsview \<Rightarrow> path \<Rightarrow> bool" where
  "pathExists fs p = (fs p \<noteq> None)"

section \<open>Planning\<close>

record fileinfo =
  info_path :: path
  info_size :: nat
  info_date :: jsdate
  info_hash :: string
  isDuplicate :: bool
  originalPath :: "path option"

datatype operation =
    isMove: Move (source: path) (target: path) (targetDir: path)
  | isDelete: Delete (source: path) (reason: string)

datatype resolution = ResMove path path | ResDelete path

text \<open>
  The metadata loop of \<open>organize\<close>: \<open>seen\<close> is \<open>seenHashes\<close>, \<open>acc\<close> is \<open>fileInfos\<close>.
  The map is returned with the records so that its final content can be stated.
\<close>

fun readFileInfos ::
  "fsview \<Rightarrow> path list \<Rightarrow> (string \<rightharpoonup> path) \<Rightarrow> fileinfo list
     \<Rightarrow> ioerror + (fileinfo list \<times> (string \<rightharpoonup> path))" where
  "readFileInfos fs [] seen acc = Inr (acc, seen)"
| "readFileInfos fs (filePath # rest) seen acc =
     (case fs filePath of
        None \<Rightarrow> Inl ENOENT
      | Some DirN \<Rightarrow> Inl EISDIR
      | Some (FileN sz digest d) \<Rightarrow>
          (let h = fingerprint sz digest;
               info = \<lparr>info_path = filePath, info_size = sz, info_date = d, info_hash = h,
                        isDuplicate = False, originalPath = None\<rparr>
           in (case seen h of
                 Some orig \<Rightarrow>
                   readFileInfos fs rest seen
                     (acc @ [info\<lparr>isDuplicate := True, originalPath := Some orig\<rparr>])
               | None \<Rightarrow>
                   readFileInfos fs rest (seen(h \<mapsto> filePath)) (acc @ [info]))))"

definition candidateName :: "string \<Rightarrow> nat \<Rightarrow> string" where
  "candidateName originalName i =
     (let (base, ext) = splitNameAndExt originalName
      in if i = 0 then base @ ext else base @ ''-'' @ show_nat i @ ext)"

definition candidatePath :: "fileinfo \<Rightarrow> path \<Rightarrow> nat \<Rightarrow> path" where
  "candidatePath info tdir i = join tdir (candidateName (basename (info_path info)) i)"

text \<open>
  The \<open>while (true)\<close> loop of \<open>resolveDestinationOperation\<close>, from counter \<open>i\<close>.
  \<open>None\<close> is a loop that never returns; \<open>Some (Inl e)\<close> is the I/O error that
  \<open>getFileHash\<close> throws out of the loop.
\<close>

partial_function (option) resolveFrom ::
  "fsview \<Rightarrow> fileinfo \<Rightarrow> path \<Rightarrow> nat \<Rightarrow> (ioerror + resolution) option" where
  "resolveFrom fs info tdir i =
     (let cand = candidatePath info tdir i
      in if \<not> pathExists fs cand then Some (Inr (ResMove cand tdir))
         else (case getFileHash fs cand of
                 Inl e \<Rightarrow> Some (Inl e)
               | Inr candHash \<Rightarrow>
                   if candHash = info_hash info then Some (Inr (ResDelete cand))
                   else resolveFrom fs info tdir (i + 1)))"

declare resolveFrom.simps [code]

definition resolveDestinationOperation ::
  "fsview \<Rightarrow> fileinfo \<Rightarrow> path \<Rightarrow> (ioerror + resolution) option" where
  "resolveDestinationOperation fs info tdir = resolveFrom fs info tdir 0"

definition targetDirOf :: "path \<Rightarrow> jsdate \<Rightarrow> path" where
  "targetDirOf targetPath d =
     (let year = show_int (getFullYear d);
          month = padStart2 (show_nat (getMonth d + 1));
          day = padStart2 (show_nat (getDate d))
      in join (join targetPath year) (year @ ''-'' @ month @ ''-'' @ day))"

text \<open>
  One turn of the planning loop: the operation pushed for \<open>info\<close>, if any.
\<close>

definition planEntry ::
  "fsview \<Rightarrow> path \<Rightarrow> fileinfo \<Rightarrow> (ioerror + operation option) option" where
  "planEntry fs targetPath info =
     (if isDuplicate info then
        Some (Inr (Some (Delete (info_path info)
          (''Duplicate of '' @ (case originalPath info of Some p \<Rightarrow> path_str p | None \<Rightarrow> ''undefined'')))))
      else
        let tdir = targetDirOf targetPath (info_date info);
            firstCandidatePath = join tdir (basename (info_path info))
        in if info_path info = firstCandidatePath then Some (Inr None)
           else (case resolveDestinationOperation fs info tdir of
                   None \<Rightarrow> None
                 | Some (Inl e) \<Rightarrow> Some (Inl e)
                 | Some (Inr (ResDelete dup)) \<Rightarrow>
                     Some (Inr (Some (Delete (info_path info) (''Duplicate of '' @ path_str dup))))
                 | Some (Inr (ResMove tgt td)) \<Rightarrow>
                     Some (Inr (Some (Move (info_path info) tgt td)))))"

fun planOperations ::
  "fsview \<Rightarrow> path \<Rightarrow> fileinfo list \<Rightarrow> operation list \<Rightarrow> (ioerror + operation list) option" where
  "planOperations fs targetPath [] ops = Some (Inr ops)"
| "planOperations fs targetPath (info # rest) ops =
     (case planEntry fs targetPath info of
        None \<Rightarrow> None
      | Some (Inl e) \<Rightarrow> Some (Inl e)
      | Some (Inr None) \<Rightarrow> planOperations fs targetPath rest ops
      | Some (Inr (Some op)) \<Rightarrow> planOperations fs targetPath rest (ops @ [op]))"

text \<open>The planning pass of \<open>organize\<close> on the scanned file list.\<close>

definition organizePlan ::
  "fsview \<Rightarrow> path \<Rightarrow> path list \<Rightarrow> (ioerror + operation list) option" where
  "organizePlan fs targetPath files =
     (case readFileInfos fs files Map.empty [] of
        Inl e \<Rightarrow> Some (Inl e)
      | Inr (fileInfos, seen) \<Rightarrow> planOperations fs targetPath fileInfos [])"

text \<open>
  Candidate \<open>n\<close> exists as a regular file whose fingerprint is not the source's: the one
  case in which the loop of \<open>resolveDestinationOperation\<close> goes on to \<open>n + 1\<close>.
\<close>

definition differs :: "fsview \<Rightarrow> fileinfo \<Rightarrow> path \<Rightarrow> nat \<Rightarrow> bool" where
  "differs fs info tdir n =
     (case fs (candidatePath info tdir n) of
        Some (FileN sz dg d) \<Rightarrow> fingerprint sz dg \<noteq> info_hash info
      | _ \<Rightarrow> False)"

text \<open>A name that \<open>path.join\<close> appends as one segment.\<close>

definition plain_name :: "string \<Rightarrow> bool" where
  "plain_name s = (s \<noteq> [] \<and> s \<noteq> ''.'' \<and> s \<noteq> ''..'' \<and> CHR ''/'' \<notin> set s)"

text \<open>The destination paths of the moves of a plan, in plan order.\<close>

definition moveTargets :: "operation list \<Rightarrow> path list" where
  "moveTargets ops = map target (filter isMove ops)"

section \<open>The review screen: overrides and key events\<close>

datatype override = OvIgnore | OvDelete | OvRename (newPath: path)

text \<open>The flags of the \<open>key\<close> object that the handler reads.\<close>

record keyflags =
  upArrow :: bool
  downArrow :: bool
  escape :: bool
  returnKey :: bool

text \<open>
  The component state that the input handler reads and writes.  The override object is
  keyed by the selected index, which is a number that can leave the plan's range.
\<close>

record ui =
  operations :: "operation list"
  awaitingConfirm :: bool
  executing :: bool
  selectedIndex :: int
  overrides :: "int \<rightharpoonup> override"
  renameMode :: bool
  renameInput :: string
  status :: string

datatype jserror = TypeError

definition lower_char :: "char \<Rightarrow> char" where
  "lower_char c =
     (let n = (of_char c :: nat) in if 65 \<le> n \<and> n \<le> 90 then char_of (n + 32) else c)"

definition toLowerCase :: "string \<Rightarrow> string" where
  "toLowerCase s = map lower_char s"

text \<open>\<open>operations[selectedIndex]\<close>: \<open>undefined\<close> outside the array.\<close>

definition operationAt :: "operation list \<Rightarrow> int \<Rightarrow> operation option" where
  "operationAt ops i = (if 0 \<le> i \<and> i < int (length ops) then Some (ops ! nat i) else None)"

definition toggleOverride :: "(int \<rightharpoonup> override) \<Rightarrow> int \<Rightarrow> override \<Rightarrow> (int \<rightharpoonup> override)" where
  "toggleOverride prev i kind = (if prev i = Some kind then prev(i := None) else prev(i \<mapsto> kind))"

text \<open>The state after the dry-run planning pass has produced \<open>ops\<close>.\<close>

definition dryRunComplete :: "operation list \<Rightarrow> ui" where
  "dryRunComplete ops =
     \<lparr>operations = ops, awaitingConfirm = True, executing = False, selectedIndex = 0,
      overrides = Map.empty, renameMode = False, renameInput = [],
      status = ''Dry run complete!''\<rparr>"

text \<open>
  The \<open>useInput\<close> handler on one event.  Reading \<open>.type\<close> of an undefined operation
  throws; starting execution sets \<open>executing\<close>, after which \<open>executeOperations\<close> runs.
\<close>

definition useInput :: "ui \<Rightarrow> string \<Rightarrow> keyflags \<Rightarrow> jserror + ui" where
  "useInput st input key =
     (if \<not> awaitingConfirm st \<or> executing st then Inr st
      else if \<not> renameMode st \<and> upArrow key then
        Inr (st\<lparr>selectedIndex := max (selectedIndex st - 1) 0\<rparr>)
      else if \<not> renameMode st \<and> downArrow key then
        Inr (st\<lparr>selectedIndex := min (selectedIndex st + 1) (int (length (operations st)) - 1)\<rparr>)
      else if renameMode st \<and> escape key then Inr (st\<lparr>renameMode := False\<rparr>)
      else if renameMode st \<and> returnKey key then
        (case operationAt (operations st) (selectedIndex st) of
           None \<Rightarrow> Inl TypeError
         | Some op \<Rightarrow>
             let np = (if isMove op then join (targetDir op) (renameInput st)
                       else join (dirname (source op)) (renameInput st))
             in Inr (st\<lparr>overrides := (overrides st)(selectedIndex st \<mapsto> OvRename np),
                         renameMode := False\<rparr>))
      else if \<not> renameMode st \<and> input \<noteq> [] \<and> toLowerCase input = ''i'' then
        Inr (st\<lparr>overrides := toggleOverride (overrides st) (selectedIndex st) OvIgnore\<rparr>)
      else if \<not> renameMode st \<and> input \<noteq> [] \<and> toLowerCase input = ''d'' then
        Inr (st\<lparr>overrides := toggleOverride (overrides st) (selectedIndex st) OvDelete\<rparr>)
      else if \<not> renameMode st \<and> input \<noteq> [] \<and> toLowerCase input = ''r'' then
        (case overrides st (selectedIndex st) of
           Some (OvRename np) \<Rightarrow>
             Inr (st\<lparr>overrides := (overrides st)(selectedIndex st := None)\<rparr>)
         | _ \<Rightarrow>
             (case operationAt (operations st) (selectedIndex st) of
                None \<Rightarrow> Inl TypeError
              | Some op \<Rightarrow>
                  let initialName = (if isMove op then basename (target op)
                                     else basename (source op))
                  in Inr (st\<lparr>renameInput := initialName, renameMode := True\<rparr>)))
      else if returnKey key \<or> toLowerCase input = ''y'' then
        Inr (st\<lparr>awaitingConfirm := False, status := ''Executing operations...'',
                  executing := True\<rparr>)
      else if toLowerCase input = ''n'' \<or> escape key \<or> toLowerCase input = ''q'' then
        Inr (st\<lparr>awaitingConfirm := False, status := ''Canceled. No changes made.''\<rparr>)
      else Inr st)"

text \<open>A run of events; a thrown error ends it.\<close>

fun useInputs :: "ui \<Rightarrow> (string \<times> keyflags) list \<Rightarrow> jserror + ui" where
  "useInputs st [] = Inr st"
| "useInputs st ((input, key) # evs) =
     (case useInput st input key of Inl e \<Rightarrow> Inl e | Inr st' \<Rightarrow> useInputs st' evs)"

definition noKey :: keyflags where
  "noKey = \<lparr>upArrow = False, downArrow = False, escape = False, returnKey = False\<rparr>"

text \<open>The selection and the override keys lie inside the plan.\<close>

definition selectionInRange :: "ui \<Rightarrow> bool" where
  "selectionInRange st = (0 \<le> selectedIndex st \<and> selectedIndex st < int (length (operations st)))"

definition overridesInRange :: "ui \<Rightarrow> bool" where
  "overridesInRange st = (\<forall>k\<in>dom (overrides st). 0 \<le> k \<and> k < int (length (operations st)))"

section \<open>Execution\<close>

datatype fscall = Unlink path | MkdirP path | Rename path path

text \<open>
  Awaited calls in sequence against a filesystem \<open>sys\<close>; the first one that throws ends
  the run and leaves the earlier ones applied.
\<close>

fun awaitAll ::
  "(fscall \<Rightarrow> 'fs \<Rightarrow> ioerror + 'fs) \<Rightarrow> fscall list \<Rightarrow> 'fs \<Rightarrow> (ioerror \<times> 'fs) + 'fs" where
  "awaitAll sys [] fs = Inr fs"
| "awaitAll sys (c # cs) fs =
     (case sys c fs of Inl e \<Rightarrow> Inl (e, fs) | Inr fs' \<Rightarrow> awaitAll sys cs fs')"

text \<open>\<open>Set.prototype.add\<close> on a set kept in insertion order.\<close>

definition setAdd :: "'a list \<Rightarrow> 'a \<Rightarrow> 'a list" where
  "setAdd xs x = (if x \<in> set xs then xs else xs @ [x])"

text \<open>
  The loop over \<open>i\<close> of the confirm branch; \<open>dirs\<close> is \<open>sourceDirs\<close>, in insertion
  order.
\<close>

function executeFrom ::
  "(fscall \<Rightarrow> 'fs \<Rightarrow> ioerror + 'fs) \<Rightarrow> operation list \<Rightarrow> (int \<rightharpoonup> override) \<Rightarrow> nat
     \<Rightarrow> path list \<Rightarrow> 'fs \<Rightarrow> (ioerror \<times> 'fs) + (path list \<times> 'fs)" where
  "executeFrom sys ops ovr i dirs fs =
     (if i < length ops then
        let op = ops ! i; override = ovr (int i)
        in if override = Some OvIgnore then executeFrom sys ops ovr (i + 1) dirs fs
           else
             let dirs' = setAdd dirs (dirname (source op));
                 calls =
                   (case override of
                      Some OvDelete \<Rightarrow> [Unlink (source op)]
                    | Some (OvRename finalTarget) \<Rightarrow>
                        [MkdirP (dirname finalTarget), Rename (source op) finalTarget]
                    | _ \<Rightarrow>
                        if isDelete op then [Unlink (source op)]
                        else if isMove op then
                          [MkdirP (targetDir op), Rename (source op) (target op)]
                        else [])
             in (case awaitAll sys calls fs of
                   Inl err \<Rightarrow> Inl err
                 | Inr fs' \<Rightarrow> executeFrom sys ops ovr (i + 1) dirs' fs')
      else Inr (dirs, fs))"
  by pat_completeness auto
termination
  by (relation "measure (\<lambda>(sys, ops, ovr, i, dirs, fs). length ops - i)") auto

declare executeFrom.simps [simp del]

definition executeOperations ::
  "(fscall \<Rightarrow> 'fs \<Rightarrow> ioerror + 'fs) \<Rightarrow> operation list \<Rightarrow> (int \<rightharpoonup> override) \<Rightarrow> 'fs
     \<Rightarrow> (ioerror \<times> 'fs) + (path list \<times> 'fs)" where
  "executeOperations sys ops ovr fs = executeFrom sys ops ovr 0 [] fs"

text \<open>The contract of the execution loop in the specification's words.\<close>

fun effectiveCalls :: "operation \<Rightarrow> override option \<Rightarrow> fscall list" where
  "effectiveCalls op (Some OvIgnore) = []"
| "effectiveCalls op (Some (OvRename np)) = [MkdirP (dirname np), Rename (source op) np]"
| "effectiveCalls op (Some OvDelete) = [Unlink (source op)]"
| "effectiveCalls (Delete src why) None = [Unlink src]"
| "effectiveCalls (Move src tgt tdir) None = [MkdirP tdir, Rename src tgt]"

definition withOverrides ::
  "operation list \<Rightarrow> (int \<rightharpoonup> override) \<Rightarrow> (operation \<times> override option) list" where
  "withOverrides ops ovr = zip ops (map (\<lambda>i. ovr (int i)) [0..<length ops])"

definition specCalls :: "(operation \<times> override option) list \<Rightarrow> fscall list" where
  "specCalls xs = concat (map (\<lambda>(op, ov). effectiveCalls op ov) xs)"

text \<open>The source folders of the entries that are not ignored, in plan order.\<close>

definition processedDirs :: "(operation \<times> override option) list \<Rightarrow> path list" where
  "processedDirs xs =
     map (\<lambda>(op, ov). dirname (source op)) (filter (\<lambda>(op, ov). ov \<noteq> Some OvIgnore) xs)"

definition specDirs :: "(operation \<times> override option) list \<Rightarrow> path list" where
  "specDirs xs = foldl setAdd [] (processedDirs xs)"

text \<open>A filesystem that only records the calls made on it.\<close>

definition logCall :: "fscall \<Rightarrow> fscall list \<Rightarrow> ioerror + fscall list" where
  "logCall c tr = Inr (tr @ [c])"


section \<open>The EXIF date extractor\<close>

type_synonym buffer = "8 word list"

datatype rangeerror = RangeError

text \<open>
  The \<open>DataView\<close> reads: a read that does not fit inside the buffer throws.  Offsets are
  JavaScript numbers that never wrap here, so they are natural numbers.
\<close>

definition getUint8 :: "buffer \<Rightarrow> nat \<Rightarrow> rangeerror + nat" where
  "getUint8 buf off = (if off < length buf then Inr (unat (buf ! off)) else Inl RangeError)"

definition getUint16 :: "buffer \<Rightarrow> nat \<Rightarrow> bool \<Rightarrow> rangeerror + nat" where
  "getUint16 buf off littleEndian =
     (if off + 2 \<le> length buf then
        (let b0 = unat (buf ! off); b1 = unat (buf ! (off + 1))
         in Inr (if littleEndian then b0 + 256 * b1 else 256 * b0 + b1))
      else Inl RangeError)"

definition getUint32 :: "buffer \<Rightarrow> nat \<Rightarrow> bool \<Rightarrow> rangeerror + nat" where
  "getUint32 buf off littleEndian =
     (if off + 4 \<le> length buf then
        (let b0 = unat (buf ! off); b1 = unat (buf ! (off + 1));
             b2 = unat (buf ! (off + 2)); b3 = unat (buf ! (off + 3))
         in Inr (if littleEndian then b0 + 256 * b1 + 65536 * b2 + 16777216 * b3
                 else 16777216 * b0 + 65536 * b1 + 256 * b2 + b3))
      else Inl RangeError)"

text \<open>Sequencing of statements that may throw.\<close>

definition bindE :: "'e + 'a \<Rightarrow> ('a \<Rightarrow> 'e + 'b) \<Rightarrow> 'e + 'b" where
  "bindE m f = (case m of Inl e \<Rightarrow> Inl e | Inr x \<Rightarrow> f x)"

text \<open>
  The marker loop after a JPEG start-of-image: the offset at which the TIFF structure is
  read afterwards, whether the loop left by \<open>break\<close> or ran to the end of the buffer.
\<close>

function findTiff :: "buffer \<Rightarrow> nat \<Rightarrow> rangeerror + nat" where
  "findTiff buf offset =
     (if offset + 1 < length buf then
        (case getUint16 buf offset False of
           Inl e \<Rightarrow> Inl e
         | Inr marker \<Rightarrow>
            (case getUint16 buf (offset + 2) False of
               Inl e \<Rightarrow> Inl e
             | Inr len \<Rightarrow>
                 if marker = 0xFFE1 then
                   (case getUint32 buf (offset + 4) False of
                      Inl e \<Rightarrow> Inl e
                    | Inr sig \<Rightarrow>
                        if sig = 0x45786966 then
                          (case getUint16 buf (offset + 4 + 4) False of
                             Inl e \<Rightarrow> Inl e
                           | Inr z \<Rightarrow>
                               if z = 0 then Inr (offset + 4 + 6)
                               else findTiff buf (offset + 4 + 2 + len))
                        else findTiff buf (offset + 4 + 2 + len))
                 else findTiff buf (offset + 2 + len)))
      else Inr offset)"
  by pat_completeness auto
termination
  by (relation "measure (\<lambda>(buf, offset). length buf - offset)") auto

declare findTiff.simps [simp del]

text \<open>The arguments of the \<open>new Date(year, month - 1, day, hour, minute, second)\<close> returned.\<close>

datatype datecall = NewDate int int int int int int

definition isDigit :: "nat \<Rightarrow> bool" where
  "isDigit c = (48 \<le> c \<and> c \<le> 57)"

definition digitsValue :: "nat list \<Rightarrow> int" where
  "digitsValue cs = foldl (\<lambda>acc c. 10 * acc + (int c - 48)) 0 cs"

text \<open>
  The match of \<open>/^(\d{4}):(\d{2}):(\d{2}) (\d{2}):(\d{2}):(\d{2})$/\<close> on the character
  codes of \<open>dateStr\<close>, and the date built from its groups.
\<close>

definition matchDate :: "nat list \<Rightarrow> datecall option" where
  "matchDate cs =
     (if length cs = 19
         \<and> (\<forall>i\<in>set [0, 1, 2, 3, 5, 6, 8, 9, 11, 12, 14, 15, 17, 18]. isDigit (cs ! i))
         \<and> cs ! 4 = 58 \<and> cs ! 7 = 58 \<and> cs ! 10 = 32 \<and> cs ! 13 = 58 \<and> cs ! 16 = 58
      then Some (NewDate (digitsValue (take 4 cs))
                         (digitsValue (take 2 (drop 5 cs)) - 1)
                         (digitsValue (take 2 (drop 8 cs)))
                         (digitsValue (take 2 (drop 11 cs)))
                         (digitsValue (take 2 (drop 14 cs)))
                         (digitsValue (take 2 (drop 17 cs))))
      else None)"

text \<open>The loop that builds \<open>dateStr\<close> from \<open>n\<close> bytes at \<open>valueOffset\<close>.\<close>

fun readChars :: "buffer \<Rightarrow> nat \<Rightarrow> nat \<Rightarrow> rangeerror + nat list" where
  "readChars buf valueOffset 0 = Inr []"
| "readChars buf valueOffset (Suc n) =
     (case getUint8 buf valueOffset of
        Inl e \<Rightarrow> Inl e
      | Inr c \<Rightarrow>
          (case readChars buf (valueOffset + 1) n of
             Inl e \<Rightarrow> Inl e
           | Inr cs \<Rightarrow> Inr (c # cs)))"

text \<open>The body of \<open>if (tag === 0x9003)\<close> for the entry at \<open>entryOffset\<close>.\<close>

definition dateTimeOriginal :: "buffer \<Rightarrow> nat \<Rightarrow> bool \<Rightarrow> nat \<Rightarrow> rangeerror + datecall option" where
  "dateTimeOriginal buf offset le entryOffset =
     bindE (getUint16 buf (entryOffset + 2) le) (\<lambda>format.
     bindE (getUint32 buf (entryOffset + 4) le) (\<lambda>count.
       if format = 2 then
         bindE (getUint32 buf (entryOffset + 8) le) (\<lambda>stored.
           let valueOffset = (if count \<le> 4 then entryOffset + 8 else offset + stored)
           in bindE (readChars buf valueOffset (count - 1)) (\<lambda>dateStr. Inr (matchDate dateStr)))
       else Inr None))"

text \<open>
  The loop over the entries of one directory looking for tag \<open>0x9003\<close>: \<open>n\<close> entries
  are left, the next one is at \<open>entryOffset\<close>.
\<close>

fun scanEntries :: "buffer \<Rightarrow> nat \<Rightarrow> bool \<Rightarrow> nat \<Rightarrow> nat \<Rightarrow> rangeerror + datecall option" where
  "scanEntries buf offset le entryOffset 0 = Inr None"
| "scanEntries buf offset le entryOffset (Suc n) =
     (case getUint16 buf entryOffset le of
        Inl e \<Rightarrow> Inl e
      | Inr tag \<Rightarrow>
          if tag = 0x9003 then
            (case dateTimeOriginal buf offset le entryOffset of
               Inl e \<Rightarrow> Inl e
             | Inr (Some d) \<Rightarrow> Inr (Some d)
             | Inr None \<Rightarrow> scanEntries buf offset le (entryOffset + 12) n)
          else scanEntries buf offset le (entryOffset + 12) n)"

text \<open>The second loop over IFD0, following each EXIF sub-IFD pointer \<open>0x8769\<close>.\<close>

fun scanSubIFDs :: "buffer \<Rightarrow> nat \<Rightarrow> bool \<Rightarrow> nat \<Rightarrow> nat \<Rightarrow> rangeerror + datecall option" where
  "scanSubIFDs buf offset le entryOffset 0 = Inr None"
| "scanSubIFDs buf offset le entryOffset (Suc n) =
     (case getUint16 buf entryOffset le of
        Inl e \<Rightarrow> Inl e
      | Inr tag \<Rightarrow>
          if tag = 0x8769 then
            (case getUint32 buf (entryOffset + 8) le of
               Inl e \<Rightarrow> Inl e
             | Inr exifIFDOffset \<Rightarrow>
                 (case getUint16 buf (offset + exifIFDOffset) le of
                    Inl e \<Rightarrow> Inl e
                  | Inr exifNumEntries \<Rightarrow>
                      (case scanEntries buf offset le (offset + exifIFDOffset + 2) exifNumEntries of
                         Inl e \<Rightarrow> Inl e
                       | Inr (Some d) \<Rightarrow> Inr (Some d)
                       | Inr None \<Rightarrow> scanSubIFDs buf offset le (entryOffset + 12) n)))
          else scanSubIFDs buf offset le (entryOffset + 12) n)"

text \<open>The offset of the TIFF structure: 0, or what the JPEG marker loop leaves.\<close>

definition tiffOffset :: "buffer \<Rightarrow> rangeerror + nat" where
  "tiffOffset buf =
     bindE (getUint16 buf 0 False) (\<lambda>soi. if soi = 0xFFD8 then findTiff buf 2 else Inr 0)"

text \<open>The \<open>try\<close> block: \<open>Inl\<close> is a thrown exception, \<open>Inr None\<close> is \<open>return null\<close>.\<close>

definition extractExifBody :: "buffer \<Rightarrow> rangeerror + datecall option" where
  "extractExifBody buf =
     bindE (tiffOffset buf) (\<lambda>offset.
     bindE (getUint16 buf offset False) (\<lambda>tiffHeader.
       if tiffHeader \<noteq> 0x4949 \<and> tiffHeader \<noteq> 0x4D4D then Inr None
       else
         let le = (tiffHeader = 0x4949)
         in bindE (getUint32 buf (offset + 4) le) (\<lambda>ifd0Offset.
            let ifd0Position = offset + ifd0Offset
            in bindE (getUint16 buf ifd0Position le) (\<lambda>numEntries.
               bindE (scanEntries buf offset le (ifd0Position + 2) numEntries) (\<lambda>found.
                 case found of
                   Some d \<Rightarrow> Inr (Some d)
                 | None \<Rightarrow> scanSubIFDs buf offset le (ifd0Position + 2) numEntries)))))"

text \<open>\<open>extractExifDate\<close>: the \<open>catch\<close> swallows every exception and null is returned.\<close>

definition extractExifDate :: "buffer \<Rightarrow> datecall option" where
  "extractExifDate buf = (case extractExifBody buf of Inl e \<Rightarrow> None | Inr r \<Rightarrow> r)"

text \<open>
  A little-endian TIFF with one IFD entry, \<open>DateTimeOriginal\<close> of 20 bytes stored at
  offset 26: \<open>2023:06:01 12:30:45\<close>.
\<close>

definition tiff_dated :: buffer where
  "tiff_dated =
     [0x49, 0x49, 0x2A, 0x00, 0x08, 0x00, 0x00, 0x00,
      0x01, 0x00,
      0x03, 0x90, 0x02, 0x00, 0x14, 0x00, 0x00, 0x00, 0x1A, 0x00, 0x00, 0x00,
      0x00, 0x00, 0x00, 0x00,
      0x32, 0x30, 0x32, 0x33, 0x3A, 0x30, 0x36, 0x3A, 0x30, 0x31, 0x20,
      0x31, 0x32, 0x3A, 0x33, 0x30, 0x3A, 0x34, 0x35, 0x00]"

text \<open>The same bytes inside a JPEG: start-of-image, then an APP1 segment with \<open>Exif\<close>.\<close>

definition jpeg_dated :: buffer where
  "jpeg_dated = [0xFF, 0xD8, 0xFF, 0xE1, 0x00, 0x36, 0x45, 0x78, 0x69, 0x66, 0x00, 0x00] @ tiff_dated"


section \<open>The directory tree and the scanner\<close>

text \<open>
  What \<open>readdir\<close> with file types shows of a directory: its entries in listing order,
  each a file or a directory with its own entries.
\<close>

datatype fstree = FileT | DirT "(string \<times> fstree) list"

definition IMAGE_EXTENSIONS :: "string list" where
  "IMAGE_EXTENSIONS = [''.jpg'', ''.jpeg'', ''.png'', ''.gif'', ''.bmp'', ''.tiff'', ''.tif'',
                       ''.heic'', ''.heif'', ''.webp'']"

definition RAW_EXTENSIONS :: "string list" where
  "RAW_EXTENSIONS = [''.cr2'', ''.cr3'', ''.crw'', ''.raf'', ''.raw'', ''.dng'', ''.nef'',
                     ''.arw'', ''.orf'', ''.rw2'']"

definition VIDEO_EXTENSIONS :: "string list" where
  "VIDEO_EXTENSIONS = [''.mp4'', ''.mov'', ''.avi'', ''.mkv'', ''.m4v'', ''.wmv'', ''.flv'',
                       ''.webm'']"

definition IGNORABLE_FILENAMES :: "string list" where
  "IGNORABLE_FILENAMES = [''.DS_Store'', ''Thumbs.db'', ''.localized'']"

definition isIgnorableFile :: "string \<Rightarrow> bool" where
  "isIgnorableFile name = (name \<in> set IGNORABLE_FILENAMES \<or> take 2 name = ''._'')"

fun joinSegs :: "string list \<Rightarrow> string" where
  "joinSegs [] = []"
| "joinSegs [s] = s"
| "joinSegs (s # t # ts) = s @ CHR ''/'' # joinSegs (t # ts)"

fun commonPrefixLen :: "path \<Rightarrow> path \<Rightarrow> nat" where
  "commonPrefixLen (a # as) (b # bs) = (if a = b then Suc (commonPrefixLen as bs) else 0)"
| "commonPrefixLen as bs = 0"

text \<open>\<open>path.relative(from, to)\<close> on two absolute normalised paths, as a string.\<close>

definition relative :: "path \<Rightarrow> path \<Rightarrow> string" where
  "relative from to =
     (let n = commonPrefixLen from to
      in joinSegs (replicate (length from - n) ''..'' @ drop n to))"

definition isDigitChar :: "char \<Rightarrow> bool" where
  "isDigitChar c = (c \<in> set ''0123456789'')"

text \<open>\<open>/^\d{4}$/\<close> and \<open>/^\d{4}-\d{2}-\d{2}$/\<close>.\<close>

definition isYearPart :: "string \<Rightarrow> bool" where
  "isYearPart s = (length s = 4 \<and> list_all isDigitChar s)"

definition isDayPart :: "string \<Rightarrow> bool" where
  "isDayPart s =
     (length s = 10 \<and> list_all isDigitChar (take 4 s) \<and> s ! 4 = CHR ''-''
        \<and> list_all isDigitChar (take 2 (drop 5 s)) \<and> s ! 7 = CHR ''-''
        \<and> list_all isDigitChar (drop 8 s))"

definition isInOrganizedPath :: "path \<Rightarrow> path \<Rightarrow> bool" where
  "isInOrganizedPath root fullPath =
     (let rel = relative root fullPath
      in if rel = [] \<or> take 2 rel = ''..'' then False
         else
           let parts = filter (\<lambda>s. s \<noteq> [])
                         (splitBy (\<lambda>c. c = CHR 0x5C \<or> c = CHR ''/'') rel)
           in if length parts < 2 then False
              else isYearPart (parts ! 0) \<and> isDayPart (parts ! 1))"

definition isMediaName :: "string \<Rightarrow> bool" where
  "isMediaName name =
     (toLowerCase (extname name) \<in> set (IMAGE_EXTENSIONS @ RAW_EXTENSIONS @ VIDEO_EXTENSIONS))"

text \<open>
  \<open>findMediaFiles(dir, files, root, dirSet)\<close>, with the entries that \<open>readdir(dir)\<close>
  returns passed along; \<open>forEntries\<close> is its \<open>for\<close> loop.
\<close>

fun findMediaFiles ::
    "path \<Rightarrow> (string \<times> fstree) list \<Rightarrow> path \<Rightarrow> path list \<times> path set \<Rightarrow> path list \<times> path set"
  and forEntries ::
    "path \<Rightarrow> (string \<times> fstree) list \<Rightarrow> path \<Rightarrow> path list \<times> path set \<Rightarrow> path list \<times> path set"
where
  "findMediaFiles dir entries root (files, dirSet) =
     forEntries dir entries root (files, insert dir dirSet)"
| "forEntries dir [] root acc = acc"
| "forEntries dir ((name, FileT) # rest) root (files, dirSet) =
     forEntries dir rest root
       (if isMediaName name then files @ [join dir name] else files, dirSet)"
| "forEntries dir ((name, DirT sub) # rest) root (files, dirSet) =
     (let fullPath = join dir name
      in if isInOrganizedPath root fullPath then forEntries dir rest root (files, dirSet)
         else forEntries dir rest root
                (findMediaFiles fullPath sub root (files, insert fullPath dirSet)))"

text \<open>The node of a tree at a path below it.\<close>

fun lookupT :: "fstree \<Rightarrow> path \<Rightarrow> fstree option" where
  "lookupT t [] = Some t"
| "lookupT FileT (s # p) = None"
| "lookupT (DirT es) (s # p) = (case map_of es s of None \<Rightarrow> None | Some t \<Rightarrow> lookupT t p)"

text \<open>
  The scan of \<open>organize\<close>: \<open>fs\<close> is the tree at \<open>/\<close>; \<open>readdir\<close> of a root that is
  missing or is a file throws.
\<close>

definition scan :: "fstree \<Rightarrow> path \<Rightarrow> ioerror + (path list \<times> path set)" where
  "scan fs root =
     (case lookupT fs root of
        None \<Rightarrow> Inl ENOENT
      | Some FileT \<Rightarrow> Inl ENOTDIR
      | Some (DirT entries) \<Rightarrow> Inr (findMediaFiles root entries root ([], {})))"

text \<open>A path at or below \<open>root/<year>/<day>\<close>.\<close>

definition organizedUnder :: "path \<Rightarrow> path \<Rightarrow> bool" where
  "organizedUnder root p =
     (take (length root) p = root \<and>
      (case drop (length root) p of
         y # d # rest \<Rightarrow> isYearPart y \<and> isDayPart d
       | _ \<Rightarrow> False))"

text \<open>Every entry name, at every depth, is a name that a directory listing can hold.\<close>

fun plainTree :: "fstree \<Rightarrow> bool" where
  "plainTree FileT = True"
| "plainTree (DirT es) = list_all (\<lambda>(name, t). plain_name name \<and> plainTree t) es"

text \<open>A root with an organized day folder and one unsorted folder.\<close>

definition tree_r :: "(string \<times> fstree) list" where
  "tree_r =
     [(''2023'', DirT [(''2023-06-01'', DirT [(''x.jpg'', FileT)]), (''y.jpg'', FileT)]),
      (''a'', DirT [(''z.JPG'', FileT), (''notes.txt'', FileT)])]"

definition fs_r :: fstree where
  "fs_r = DirT [(''r'', DirT tree_r)]"

definition files_r :: "path list" where
  "files_r = [[''r'', ''2023'', ''y.jpg''], [''r'', ''a'', ''z.JPG'']]"

definition dirs_r :: "path set" where
  "dirs_r = {[''r''], [''r'', ''2023''], [''r'', ''a'']}"

text \<open>No recorded path lies at or below an organized day folder.\<close>

definition clean :: "path \<Rightarrow> path list \<times> path set \<Rightarrow> bool" where
  "clean root acc = (\<forall>p\<in>set (fst acc) \<union> snd acc. \<not> organizedUnder root p)"


section \<open>Pruning empty directories\<close>

text \<open>
  The tree with the node at a path replaced (\<open>Some\<close>) or removed (\<open>None\<close>); the node
  \<open>/\<close> itself cannot be removed.
\<close>

fun updateT :: "fstree \<Rightarrow> path \<Rightarrow> fstree option \<Rightarrow> fstree"
  and updateEntries ::
    "(string \<times> fstree) list \<Rightarrow> string \<Rightarrow> path \<Rightarrow> fstree option \<Rightarrow> (string \<times> fstree) list"
where
  "updateT t [] new = (case new of Some t' \<Rightarrow> t' | None \<Rightarrow> t)"
| "updateT FileT (s # p) new = FileT"
| "updateT (DirT es) (s # p) new = DirT (updateEntries es s p new)"
| "updateEntries [] s p new = []"
| "updateEntries ((n, t) # es) s p new =
     (if n = s then
        (if p = [] then (case new of None \<Rightarrow> es | Some t' \<Rightarrow> (n, t') # es)
         else (n, updateT t p new) # es)
      else (n, t) # updateEntries es s p new)"

text \<open>
  \<open>tryRemoveIfEffectivelyEmpty\<close> on the entries of a directory.  \<open>cleanEntries\<close> is what
  the \<open>for\<close> loop leaves in the directory: ignorable files are deleted, each
  subdirectory is tried in turn and disappears when it was effectively empty.
  \<open>effectivelyEmpty\<close> is \<open>None\<close> when nothing remains, so that the directory is removed and
  the call returns true, and otherwise the entries that stay.
\<close>

fun cleanEntries :: "(string \<times> fstree) list \<Rightarrow> (string \<times> fstree) list"
  and effectivelyEmpty :: "(string \<times> fstree) list \<Rightarrow> (string \<times> fstree) list option"
where
  "cleanEntries [] = []"
| "cleanEntries ((name, FileT) # rest) =
     (if isIgnorableFile name then cleanEntries rest else (name, FileT) # cleanEntries rest)"
| "cleanEntries ((name, DirT sub) # rest) =
     (case effectivelyEmpty sub of
        None \<Rightarrow> cleanEntries rest
      | Some sub' \<Rightarrow> (name, DirT sub') # cleanEntries rest)"
| "effectivelyEmpty entries =
     (let after = cleanEntries entries;
          remaining = filter (\<lambda>(name, t). \<not> (t = FileT \<and> isIgnorableFile name)) after
      in if remaining = [] then None else Some after)"

text \<open>
  \<open>tryRemoveIfEffectivelyEmpty(dir)\<close> on the tree \<open>fs\<close> at \<open>/\<close>: the result and the tree
  afterwards.  A failing \<open>readdir\<close> or \<open>rm\<close> is swallowed and gives false.
\<close>

definition tryRemoveIfEffectivelyEmpty :: "fstree \<Rightarrow> path \<Rightarrow> bool \<times> fstree" where
  "tryRemoveIfEffectivelyEmpty fs dir =
     (case lookupT fs dir of
        Some (DirT entries) \<Rightarrow>
          (case effectivelyEmpty entries of
             None \<Rightarrow>
               if dir = [] then (False, updateT fs dir (Some (DirT (cleanEntries entries))))
               else (True, updateT fs dir None)
           | Some after \<Rightarrow> (False, updateT fs dir (Some (DirT after))))
      | _ \<Rightarrow> (False, fs))"

text \<open>
  \<open>removeEmptyUpwards(startDir, stopAt)\<close> from \<open>current\<close>; the list holds every directory
  on which \<open>tryRemoveIfEffectivelyEmpty\<close> has been called, in call order.
\<close>

function removeEmptyUpwards :: "path \<Rightarrow> path \<Rightarrow> fstree \<times> path list \<Rightarrow> fstree \<times> path list" where
  "removeEmptyUpwards current stopAt (fs, tried) =
     (if current = stopAt then (fs, tried)
      else
        let relToStop = relative stopAt current
        in if take 2 relToStop = ''..'' \<or> relToStop = [] then (fs, tried)
           else
             let (removed, fs') = tryRemoveIfEffectivelyEmpty fs current
             in if removed then removeEmptyUpwards (dirname current) stopAt (fs', tried @ [current])
                else (fs', tried @ [current]))"
  by pat_completeness auto
termination
proof (relation "measure (\<lambda>(current, stopAt, st). length current)")
  show "wf (measure (\<lambda>(current, stopAt, st). length current))" by simp
next
  fix current stopAt :: path and fs :: fstree and tried :: "path list"
    and x :: string and xa :: "bool \<times> fstree" and xb :: bool and y :: fstree
  assume a: "current \<noteq> stopAt" "x = relative stopAt current" "\<not> (take 2 x = ''..'' \<or> x = [])"
  have "current \<noteq> []"
  proof
    assume e: "current = []"
    with a(1) obtain s ss where "stopAt = s # ss" by (cases stopAt) auto
    with e a(2) have "take 2 x = ''..''"
      by (cases ss) (simp_all add: relative_def)
    with a(3) show False by simp
  qed
  then show "((dirname current, stopAt, y, tried @ [current]), current, stopAt, fs, tried)
        \<in> measure (\<lambda>(current, stopAt, st). length current)"
    by (simp add: dirname_def)
qed

declare removeEmptyUpwards.simps [simp del]

text \<open>The length of a path as a string.\<close>

definition pathLength :: "path \<Rightarrow> nat" where
  "pathLength p = length (path_str p)"

text \<open>\<open>Array.from(new Set(dirs))\<close>: the first occurrence of each path, in order.\<close>

definition uniquePaths :: "path list \<Rightarrow> path list" where
  "uniquePaths dirs = rev (remdups (rev dirs))"

text \<open>The stable sort by \<open>b.length - a.length\<close>: longest path strings first.\<close>

definition longestFirst :: "path list \<Rightarrow> path list" where
  "longestFirst dirs = sort_key (\<lambda>p. - int (pathLength p)) dirs"

definition cleanupEmptyDirectories :: "path list \<Rightarrow> path \<Rightarrow> fstree \<times> path list \<Rightarrow> fstree \<times> path list" where
  "cleanupEmptyDirectories dirs stopAt st =
     foldl (\<lambda>st dir. removeEmptyUpwards dir stopAt st) st (longestFirst (uniquePaths dirs))"

text \<open>The paths that are directories of a tree.\<close>

definition dirPaths :: "fstree \<Rightarrow> path set" where
  "dirPaths fs = {p. \<exists>es. lookupT fs p = Some (DirT es)}"

definition subdirPaths :: "fstree \<Rightarrow> path \<Rightarrow> path list" where
  "subdirPaths fs dir =
     (case lookupT fs dir of
        Some (DirT entries) \<Rightarrow>
          map (\<lambda>(name, t). join dir name) (filter (\<lambda>(name, t). t \<noteq> FileT) entries)
      | _ \<Rightarrow> [])"

text \<open>
  The first loop of \<open>pruneAllEmptyDirs\<close>: a stack of directories to list and the
  directories listed so far, in the order they were added to \<open>visited\<close>.  A directory
  that cannot be listed pushes nothing.
\<close>

function walkDirs :: "fstree \<Rightarrow> path list \<Rightarrow> path list \<Rightarrow> path list" where
  "walkDirs fs stack visited =
     (if stack = [] then visited
      else
        let dir = last stack; popped = butlast stack
        in if dir \<in> set visited then walkDirs fs popped visited
           else walkDirs fs (popped @ subdirPaths fs dir) (visited @ [dir]))"
  by pat_completeness auto
termination
proof -
  have fileT: "dirPaths FileT = {}"
  proof -
    have "lookupT FileT p \<noteq> Some (DirT es)" for p es by (cases p) simp_all
    then show ?thesis by (auto simp: dirPaths_def)
  qed
  have dirT: "dirPaths (DirT es) \<subseteq> insert [] (\<Union>(s, t)\<in>set es. (#) s ` dirPaths t)" for es
  proof
    fix p assume "p \<in> dirPaths (DirT es)"
    then obtain es' where l: "lookupT (DirT es) p = Some (DirT es')" by (auto simp: dirPaths_def)
    show "p \<in> insert [] (\<Union>(s, t)\<in>set es. (#) s ` dirPaths t)"
    proof (cases p)
      case Nil
      then show ?thesis by simp
    next
      case (Cons s q)
      with l obtain t where m: "map_of es s = Some t" and l': "lookupT t q = Some (DirT es')"
        by (auto split: option.splits)
      from m have "(s, t) \<in> set es" by (rule map_of_SomeD)
      moreover from l' have "q \<in> dirPaths t" by (auto simp: dirPaths_def)
      ultimately show ?thesis using Cons by force
    qed
  qed
  have finite_dirPaths: "finite (dirPaths t)" for t
  proof (induction t)
    case FileT
    show ?case by (simp add: fileT)
  next
    case (DirT es)
    have "finite (\<Union>(s, t)\<in>set es. (#) s ` dirPaths t)"
    proof (rule finite_UN_I)
      show "finite (set es)" by simp
    next
      fix x assume x: "x \<in> set es"
      obtain s t where st: "x = (s, t)" by (cases x)
      with x DirT.IH[of x t] have "finite (dirPaths t)" by simp
      with st show "finite (case x of (s, t) \<Rightarrow> (#) s ` dirPaths t)" by simp
    qed
    then have "finite (insert [] (\<Union>(s, t)\<in>set es. (#) s ` dirPaths t))" by simp
    with dirT[of es] show ?case by (rule finite_subset)
  qed
  have listed: "subdirPaths fs dir \<noteq> [] \<Longrightarrow> dir \<in> dirPaths fs" for fs dir
    by (auto simp: subdirPaths_def dirPaths_def split: option.splits fstree.splits)
  show ?thesis
  proof (relation "(\<lambda>(fs, stack, visited). card (dirPaths fs - set visited)) <*mlex*>
                   measure (\<lambda>(fs, stack, visited). length stack)")
    show "wf ((\<lambda>(fs, stack, visited). card (dirPaths fs - set visited)) <*mlex*>
                   measure (\<lambda>(fs, stack, visited). length stack))"
      by (simp add: wf_mlex)
  next
    fix fs :: fstree and stack visited :: "path list" and x xa :: "path"  and xb :: "path list"
    assume "stack \<noteq> []" "xb = butlast stack"
    then show "((fs, xb, visited), fs, stack, visited)
         \<in> (\<lambda>(fs, stack, visited). card (dirPaths fs - set visited)) <*mlex*>
                   measure (\<lambda>(fs, stack, visited). length stack)"
      by (simp add: mlex_iff)
  next
    fix fs :: fstree and stack visited :: "path list" and x :: "path" and xa :: "path list"
    assume a: "stack \<noteq> []" "x = last stack" "xa = butlast stack" "x \<notin> set visited"
    have fin: "finite (dirPaths fs - set visited)" using finite_dirPaths by simp
    have sub: "dirPaths fs - set (visited @ [x]) \<subseteq> dirPaths fs - set visited" by auto
    show "((fs, xa @ subdirPaths fs x, visited @ [x]), fs, stack, visited)
         \<in> (\<lambda>(fs, stack, visited). card (dirPaths fs - set visited)) <*mlex*>
                   measure (\<lambda>(fs, stack, visited). length stack)"
    proof (cases "subdirPaths fs x = []")
      case True
      with a card_mono[OF fin sub] show ?thesis by (auto simp: mlex_iff)
    next
      case False
      then have "x \<in> dirPaths fs" by (rule listed)
      with a(4) have "dirPaths fs - set (visited @ [x]) \<subset> dirPaths fs - set visited" by auto
      from psubset_card_mono[OF fin this] show ?thesis by (simp add: mlex_iff)
    qed
  qed
qed

declare walkDirs.simps [simp del]

text \<open>The second loop of \<open>pruneAllEmptyDirs\<close>, on one directory of \<open>ordered\<close>.\<close>

definition sweepStep :: "path \<Rightarrow> fstree \<times> path list \<Rightarrow> path \<Rightarrow> fstree \<times> path list" where
  "sweepStep root st dir =
     (if dir = root then st
      else (snd (tryRemoveIfEffectivelyEmpty (fst st) dir), snd st @ [dir]))"

definition pruneAllEmptyDirs :: "path \<Rightarrow> fstree \<times> path list \<Rightarrow> fstree \<times> path list" where
  "pruneAllEmptyDirs root st =
     (let visited = walkDirs (fst st) [root] [];
          ordered = longestFirst visited
      in foldl (sweepStep root) st ordered)"

text \<open>
  The two cleanup calls that follow execution: the tree afterwards and every directory
  that pruning was attempted on.
\<close>

definition pruneAfterExecution :: "path list \<Rightarrow> path \<Rightarrow> fstree \<Rightarrow> fstree \<times> path list" where
  "pruneAfterExecution candidates root fs =
     pruneAllEmptyDirs root (cleanupEmptyDirectories candidates root (fs, []))"

text \<open>A path strictly below \<open>root\<close>.\<close>

definition strictlyBelow :: "path \<Rightarrow> path \<Rightarrow> bool" where
  "strictlyBelow root p = (length root < length p \<and> take (length root) p = root)"

definition isDirAt :: "fstree \<Rightarrow> path \<Rightarrow> bool" where
  "isDirAt fs p = (case lookupT fs p of Some (DirT es) \<Rightarrow> True | _ \<Rightarrow> False)"

text \<open>A root whose folders hold only marker files or nothing.\<close>

definition fs_empty :: fstree where
  "fs_empty = DirT [(''r'', DirT [(''a'', DirT [(''.DS_Store'', FileT), (''b'', DirT [])]),
                                  (''c'', DirT [(''._x'', FileT)])])]"

text \<open>The entries of a directory all carry plain names, at every depth.\<close>

definition plainEntries :: "(string \<times> fstree) list \<Rightarrow> bool" where
  "plainEntries es = list_all (\<lambda>(name, t). plain_name name \<and> plainTree t) es"

text \<open>
  The state of pruning keeps \<open>root\<close> a directory, keeps the tree's names plain, and has
  tried directories strictly below \<open>root\<close> only.
\<close>

definition kept :: "path \<Rightarrow> fstree \<times> path list \<Rightarrow> bool" where
  "kept root st = (isDirAt (fst st) root \<and> plainTree (fst st) \<and>
                   (\<forall>p\<in>set (snd st). strictlyBelow root p))"


section \<open>The confirm branch on a directory tree\<close>

text \<open>
  The three filesystem calls of the executor on a tree, with the error codes of POSIX:
  \<open>unlink\<close> of a file, \<open>mkdir\<close> with \<open>recursive\<close>, and \<open>rename\<close>, which replaces a
  file or an empty directory at the destination.  A new entry of a directory is listed
  last.  \<open>resolveT\<close> walks a path and fails where a component is missing or is a file.
\<close>

fun resolveT :: "fstree \<Rightarrow> path \<Rightarrow> ioerror + fstree" where
  "resolveT t [] = Inr t"
| "resolveT FileT (s # p) = Inl ENOTDIR"
| "resolveT (DirT es) (s # p) =
     (case map_of es s of None \<Rightarrow> Inl ENOENT | Some t \<Rightarrow> resolveT t p)"

definition unlinkT :: "fstree \<Rightarrow> path \<Rightarrow> ioerror + fstree" where
  "unlinkT fs p =
     (case resolveT fs p of
        Inl e \<Rightarrow> Inl e
      | Inr (DirT es) \<Rightarrow> Inl EISDIR
      | Inr FileT \<Rightarrow> Inr (updateT fs p None))"

fun mkdirT :: "fstree \<Rightarrow> path \<Rightarrow> ioerror + fstree" where
  "mkdirT FileT [] = Inl EEXIST"
| "mkdirT FileT (s # p) = Inl ENOTDIR"
| "mkdirT (DirT es) [] = Inr (DirT es)"
| "mkdirT (DirT es) (s # p) =
     (case map_of es s of
        None \<Rightarrow>
          (case mkdirT (DirT []) p of
             Inl e \<Rightarrow> Inl e
           | Inr t \<Rightarrow> Inr (DirT (es @ [(s, t)])))
      | Some t \<Rightarrow>
          (case mkdirT t p of
             Inl e \<Rightarrow> Inl e
           | Inr t' \<Rightarrow> Inr (DirT (updateEntries es s [] (Some t')))))"

text \<open>The tree with \<open>new\<close> put at a path whose parent is a directory.\<close>

fun putT :: "fstree \<Rightarrow> path \<Rightarrow> fstree \<Rightarrow> fstree" where
  "putT t [] new = new"
| "putT FileT (s # p) new = FileT"
| "putT (DirT es) (s # p) new =
     (case map_of es s of
        None \<Rightarrow> if p = [] then DirT (es @ [(s, new)]) else DirT es
      | Some t \<Rightarrow> DirT (updateEntries es s [] (Some (putT t p new))))"

definition renameT :: "fstree \<Rightarrow> path \<Rightarrow> path \<Rightarrow> ioerror + fstree" where
  "renameT fs src dst =
     (if src = [] \<or> dst = [] then Inl EBUSY
      else
        (case resolveT fs src of
           Inl e \<Rightarrow> Inl e
         | Inr node \<Rightarrow>
             (case resolveT fs (butlast dst) of
                Inl e \<Rightarrow> Inl e
              | Inr FileT \<Rightarrow> Inl ENOTDIR
              | Inr (DirT parent) \<Rightarrow>
                  if src = dst then Inr fs
                  else if strictlyBelow src dst then Inl EINVAL
                  else
                    (case (node, lookupT fs dst) of
                       (FileT, Some (DirT es)) \<Rightarrow> Inl EISDIR
                     | (DirT sub, Some FileT) \<Rightarrow> Inl ENOTDIR
                     | (DirT sub, Some (DirT es)) \<Rightarrow>
                         if es = [] then Inr (putT (updateT fs src None) dst node)
                         else Inl ENOTEMPTY
                     | _ \<Rightarrow> Inr (putT (updateT fs src None) dst node)))))"

fun treeCall :: "fscall \<Rightarrow> fstree \<Rightarrow> ioerror + fstree" where
  "treeCall (Unlink p) fs = unlinkT fs p"
| "treeCall (MkdirP p) fs = mkdirT fs p"
| "treeCall (Rename src dst) fs = renameT fs src dst"

text \<open>
  The rescan of the confirm branch, \<open>findMediaFiles(targetPath, [], targetPath,
  visitedDirs)\<close>, whose file list is dropped: \<open>visitedDirs\<close> in insertion order.
  \<open>forVisited\<close> is the \<open>for\<close> loop.
\<close>

fun rescanVisited ::
    "path \<Rightarrow> (string \<times> fstree) list \<Rightarrow> path \<Rightarrow> path list \<Rightarrow> path list"
  and forVisited ::
    "path \<Rightarrow> (string \<times> fstree) list \<Rightarrow> path \<Rightarrow> path list \<Rightarrow> path list"
where
  "rescanVisited dir entries root dirSet = forVisited dir entries root (setAdd dirSet dir)"
| "forVisited dir [] root dirSet = dirSet"
| "forVisited dir ((name, FileT) # rest) root dirSet = forVisited dir rest root dirSet"
| "forVisited dir ((name, DirT sub) # rest) root dirSet =
     (let fullPath = join dir name
      in if isInOrganizedPath root fullPath then forVisited dir rest root dirSet
         else forVisited dir rest root
                (rescanVisited fullPath sub root (setAdd dirSet fullPath)))"

text \<open>
  The confirm branch after the key: the execution loop, the rescan, the cleanup
  candidates \<open>new Set([...sourceDirs, ...visitedDirs])\<close> and the two pruning calls.
  \<open>Inl\<close> is the \<open>catch\<close>; \<open>Inr\<close> holds the cleanup candidates, the tree afterwards and
  the directories that pruning was tried on.
\<close>

definition confirmBranch ::
  "operation list \<Rightarrow> (int \<rightharpoonup> override) \<Rightarrow> path \<Rightarrow> fstree
     \<Rightarrow> (ioerror \<times> fstree) + (path list \<times> fstree \<times> path list)" where
  "confirmBranch ops ovr targetPath fs =
     (case executeOperations treeCall ops ovr fs of
        Inl err \<Rightarrow> Inl err
      | Inr (sourceDirs, fs1) \<Rightarrow>
          (case lookupT fs1 targetPath of
             None \<Rightarrow> Inl (ENOENT, fs1)
           | Some FileT \<Rightarrow> Inl (ENOTDIR, fs1)
           | Some (DirT entries) \<Rightarrow>
               let visitedDirs = rescanVisited targetPath entries targetPath [];
                   cleanupCandidates = uniquePaths (sourceDirs @ visitedDirs)
               in Inr (cleanupCandidates,
                       pruneAfterExecution cleanupCandidates targetPath fs1)))"


section \<open>Concrete directory states\<close>

definition june1 :: jsdate where
  "june1 = JsDate 2023 5 1"

text \<open>Two files of the same name and date, with different content, in two source folders.\<close>

definition fs_collide :: fsview where
  "fs_collide p =
     (if p = [''r'', ''a'', ''x.jpg''] then Some (FileN 3 ''aa'' june1)
      else if p = [''r'', ''b'', ''x.jpg''] then Some (FileN 3 ''bb'' june1)
      else None)"

text \<open>Two identical files, and a third identical one already in the organized folder.\<close>

definition fs_organized :: fsview where
  "fs_organized p =
     (if p = [''r'', ''a'', ''x.jpg''] then Some (FileN 3 ''aa'' june1)
      else if p = [''r'', ''b'', ''x.jpg''] then Some (FileN 3 ''aa'' june1)
      else if p = [''r'', ''2023'', ''2023-06-01'', ''x.jpg''] then Some (FileN 3 ''aa'' june1)
      else None)"

text \<open>One file whose destination name is taken by a file of different content.\<close>

definition fs_taken :: fsview where
  "fs_taken p =
     (if p = [''r'', ''a'', ''x.jpg''] then Some (FileN 3 ''aa'' june1)
      else if p = [''r'', ''2023'', ''2023-06-01'', ''x.jpg''] then Some (FileN 3 ''cc'' june1)
      else None)"


definition info_x :: fileinfo where
  "info_x = \<lparr>info_path = [''r'', ''a'', ''x.jpg''], info_size = 3, info_date = june1,
             info_hash = ''3-aa'', isDuplicate = False, originalPath = None\<rparr>"

definition day_dir :: path where
  "day_dir = [''r'', ''2023'', ''2023-06-01'']"

definition files_ab :: "path list" where
  "files_ab = [[''r'', ''a'', ''x.jpg''], [''r'', ''b'', ''x.jpg'']]"

definition plan_collide :: "operation list" where
  "plan_collide =
     [Move [''r'', ''a'', ''x.jpg''] [''r'', ''2023'', ''2023-06-01'', ''x.jpg''] day_dir,
      Move [''r'', ''b'', ''x.jpg''] [''r'', ''2023'', ''2023-06-01'', ''x.jpg''] day_dir]"

definition plan_organized :: "operation list" where
  "plan_organized =
     [Delete [''r'', ''a'', ''x.jpg''] ''Duplicate of /r/2023/2023-06-01/x.jpg'',
      Delete [''r'', ''b'', ''x.jpg''] ''Duplicate of /r/a/x.jpg'']"

definition infos_ab :: "fileinfo list" where
  "infos_ab =
     [\<lparr>info_path = [''r'', ''a'', ''x.jpg''], info_size = 3, info_date = june1,
       info_hash = ''3-aa'', isDuplicate = False, originalPath = None\<rparr>,
      \<lparr>info_path = [''r'', ''b'', ''x.jpg''], info_size = 3, info_date = june1,
       info_hash = ''3-aa'', isDuplicate = True, originalPath = Some [''r'', ''a'', ''x.jpg'']\<rparr>]"

text \<open>One file whose destination name is taken by a directory.\<close>

definition fs_dir :: fsview where
  "fs_dir p =
     (if p = [''r'', ''a'', ''x.jpg''] then Some (FileN 3 ''aa'' june1)
      else if p = [''r'', ''2023'', ''2023-06-01'', ''x.jpg''] then Some DirN
      else None)"

text \<open>A plan of one move and one delete, and the review screen in rename mode on it.\<close>

definition plan_md :: "operation list" where
  "plan_md =
     [Move [''r'', ''a'', ''x.jpg''] [''r'', ''2023'', ''2023-06-01'', ''x.jpg''] day_dir,
      Delete [''r'', ''b'', ''y.jpg''] ''Duplicate of /r/a/x.jpg'']"

definition renaming :: ui where
  "renaming = (dryRunComplete plan_md)\<lparr>renameMode := True, renameInput := ''x.jpg''\<rparr>"

definition ovr_md :: "int \<rightharpoonup> override" where
  "ovr_md = [1 \<mapsto> OvRename [''r'', ''b'', ''keep.jpg'']]"

text \<open>
  A root with a resource-fork file that is a media file by its extension, planned as a
  move, and a second media file beside it.
\<close>

definition fs_fork :: fstree where
  "fs_fork = DirT [(''r'', DirT [(''a'', DirT [(''._x.jpg'', FileT)]),
                                 (''b'', DirT [(''y.jpg'', FileT), (''z.jpg'', FileT)])])]"

definition plan_fork :: "operation list" where
  "plan_fork =
     [Move [''r'', ''a'', ''._x.jpg''] [''r'', ''2023'', ''2023-06-01'', ''._x.jpg''] day_dir,
      Move [''r'', ''b'', ''y.jpg''] [''r'', ''2023'', ''2023-06-01'', ''y.jpg''] day_dir,
      Delete [''r'', ''b'', ''z.jpg''] ''Duplicate of /r/b/y.jpg'']"

definition ovr_fork :: "int \<rightharpoonup> override" where
  "ovr_fork = [0 \<mapsto> OvIgnore, 1 \<mapsto> OvIgnore]"

definition fs_md :: fstree where
  "fs_md = DirT [(''r'', DirT [(''a'', DirT [(''x.jpg'', FileT)]),
                               (''b'', DirT [(''y.jpg'', FileT)])])]"

section \<open>Facts about names and paths\<close>

lemma splitBy_no_sep: "\<forall>c\<in>set s. \<not> P c \<Longrightarrow> splitBy P s = [s]"
  by (induction s) auto

lemma join_plain: "plain_name s \<Longrightarrow> join dir s = dir @ [s]"
proof -
  assume p: "plain_name s"
  then have "splitBy (\<lambda>c. c = CHR ''/'') s = [s]"
    by (intro splitBy_no_sep) (auto simp: plain_name_def)
  with p show ?thesis by (simp add: join_def plain_name_def norm_step_def)
qed

lemma digit_char_in: "digit_char d \<in> set ''0123456789''"
proof -
  have "d mod 10 < length ''0123456789''" by simp
  then show ?thesis unfolding digit_char_def by (rule nth_mem)
qed

lemma show_nat_digits: "set (show_nat n) \<subseteq> set ''0123456789''"
proof (induction n rule: show_nat.induct)
  case (1 n)
  show ?case
  proof (cases "n < 10")
    case True
    then show ?thesis using digit_char_in[of n] by (subst show_nat.simps) simp
  next
    case False
    with 1 digit_char_in[of "n mod 10"] show ?thesis by (subst show_nat.simps) simp
  qed
qed

lemma show_nat_nonempty: "show_nat n \<noteq> []"
  by (subst show_nat.simps) simp

lemma show_nat_two: "n < 100 \<Longrightarrow> padStart2 (show_nat n) = [digit_char (n div 10), digit_char n]"
proof (cases "n < 10")
  case True
  then show ?thesis
    by (subst show_nat.simps) (simp add: padStart2_def digit_char_def)
next
  case False
  assume "n < 100"
  then have "n div 10 < 10" by simp
  then have "show_nat (n div 10) = [digit_char (n div 10)]" by (subst show_nat.simps) simp
  with False show ?thesis
    by (subst show_nat.simps) (simp add: padStart2_def digit_char_def)
qed

lemma show_int_plain: "plain_name (show_int i)"
proof -
  have d: "set (show_nat n) \<subseteq> set ''0123456789''" for n by (rule show_nat_digits)
  have ne: "show_nat n \<noteq> []" for n by (rule show_nat_nonempty)
  have nodot: "CHR ''.'' \<notin> set (show_nat n)" "CHR ''/'' \<notin> set (show_nat n)" for n
    using d[of n] by auto
  have a: "show_nat n \<noteq> ''.''" "show_nat n \<noteq> ''..''" for n
    using nodot(1)[of n] by auto
  show ?thesis
    using ne nodot a by (auto simp: plain_name_def show_int_def)
qed

lemma padStart2_set: "set (padStart2 s) \<subseteq> insert (CHR ''0'') (set s)"
  by (auto simp: padStart2_def)

lemma day_name_plain:
  "plain_name (show_int y @ ''-'' @ padStart2 (show_nat m) @ ''-'' @ padStart2 (show_nat d))"
proof -
  have d: "set (show_nat n) \<subseteq> set ''0123456789''" for n by (rule show_nat_digits)
  have p: "CHR ''/'' \<notin> set (padStart2 (show_nat n))" for n
    using padStart2_set[of "show_nat n"] d[of n] by auto
  have y: "plain_name (show_int y)" by (rule show_int_plain)
  have "CHR ''-'' \<in> set (show_int y @ ''-'' @ padStart2 (show_nat m) @ ''-'' @ padStart2 (show_nat d))"
    by simp
  moreover have "CHR ''-'' \<notin> set ''.''" "CHR ''-'' \<notin> set ''..''" by simp_all
  ultimately have "show_int y @ ''-'' @ padStart2 (show_nat m) @ ''-'' @ padStart2 (show_nat d) \<noteq> ''.''"
     "show_int y @ ''-'' @ padStart2 (show_nat m) @ ''-'' @ padStart2 (show_nat d) \<noteq> ''..''"
    by metis+
  then show ?thesis using y p[of m] p[of d]
    by (simp add: plain_name_def)
qed

lemma targetDirOf_eq:
  "targetDirOf root dt =
     root @ [show_int (getFullYear dt),
             show_int (getFullYear dt) @ ''-'' @ padStart2 (show_nat (getMonth dt + 1)) @ ''-''
               @ padStart2 (show_nat (getDate dt))]"
  using show_int_plain[of "getFullYear dt"]
        day_name_plain[of "getFullYear dt" "getMonth dt + 1" "getDate dt"]
  by (simp add: targetDirOf_def Let_def join_plain)

lemma extname_suffix: "\<exists>pre. name = pre @ extname name"
proof -
  have "\<exists>pre. name = pre @ drop k name" for k
    by (metis append_take_drop_id)
  then show ?thesis by (auto simp: extname_def Let_def)
qed

lemma candidateName_0: "candidateName name 0 = name"
proof -
  obtain pre where p: "name = pre @ extname name" using extname_suffix by blast
  then have "take (length name - length (extname name)) name = pre"
    by (metis append_eq_conv_conj length_append add_diff_cancel_right')
  with p show ?thesis
    by (auto simp: candidateName_def splitNameAndExt_def Let_def)
qed

section \<open>The conflict-resolution loop\<close>

lemma resolveFrom_step:
  "differs fs info tdir i \<Longrightarrow> resolveFrom fs info tdir i = resolveFrom fs info tdir (Suc i)"
  by (subst resolveFrom.simps)
     (auto simp: differs_def pathExists_def getFileHash_def Let_def
           split: option.splits fsnode.splits)


lemma resolveFrom_free:
  "fs (candidatePath info tdir i) = None \<Longrightarrow>
   resolveFrom fs info tdir i = Some (Inr (ResMove (candidatePath info tdir i) tdir))"
  by (subst resolveFrom.simps) (simp add: pathExists_def)

lemma resolveFrom_same:
  "fs (candidatePath info tdir i) = Some (FileN sz dg d) \<Longrightarrow> fingerprint sz dg = info_hash info \<Longrightarrow>
   resolveFrom fs info tdir i = Some (Inr (ResDelete (candidatePath info tdir i)))"
  by (subst resolveFrom.simps) (simp add: pathExists_def getFileHash_def)

lemma resolveFrom_skip:
  "\<forall>m<n. differs fs info tdir m \<Longrightarrow> resolveFrom fs info tdir 0 = resolveFrom fs info tdir n"
proof (induction n)
  case 0
  show ?case by simp
next
  case (Suc n)
  then have "resolveFrom fs info tdir 0 = resolveFrom fs info tdir n" by simp
  also from Suc.prems have "\<dots> = resolveFrom fs info tdir (Suc n)"
    by (intro resolveFrom_step) simp
  finally show ?case .
qed







lemma candidate_x_0: "candidatePath info_x day_dir 0 = [''r'', ''2023'', ''2023-06-01'', ''x.jpg'']"
  by (simp add: candidatePath_def candidateName_0 info_x_def basename_def day_dir_def
        join_plain plain_name_def)

lemma candidate_x_1: "candidatePath info_x day_dir 1 = [''r'', ''2023'', ''2023-06-01'', ''x-1.jpg'']"
  by code_simp



section \<open>Planning a record that is not a duplicate\<close>

lemma resolveFrom_dir:
  "fs (candidatePath info tdir i) = Some DirN \<Longrightarrow> resolveFrom fs info tdir i = Some (Inl EISDIR)"
  by (subst resolveFrom.simps) (simp add: pathExists_def getFileHash_def)

text \<open>
  C6, as stated, fails: the first candidate \<open>/r/2023/2023-06-01/x.jpg\<close> exists as a
  directory and \<open>x-1.jpg\<close> is free, so the first name that does not exist is \<open>x-1.jpg\<close>;
  yet reading the directory for its fingerprint throws, no Move is emitted and the whole
  planning pass ends with the error.
\<close>

theorem directory_candidate_counterexample:
  "\<not> isDuplicate info_x \<and>
   info_path info_x = [''r'', ''a'', ''x.jpg''] \<and>
   targetDirOf [''r''] (info_date info_x) = day_dir \<and>
   candidatePath info_x day_dir 0 = [''r'', ''2023'', ''2023-06-01'', ''x.jpg''] \<and>
   fs_dir (candidatePath info_x day_dir 0) = Some DirN \<and>
   fs_dir (candidatePath info_x day_dir 1) = None \<and>
   resolveDestinationOperation fs_dir info_x day_dir = Some (Inl EISDIR) \<and>
   planEntry fs_dir [''r''] info_x = Some (Inl EISDIR) \<and>
   organizePlan fs_dir [''r''] [[''r'', ''a'', ''x.jpg'']] = Some (Inl EISDIR)"
  by code_simp

text \<open>
  C6, amended.  For a record not flagged as a duplicate, the destination directory is
  \<open>root/year/year-month-day\<close> from the resolved date, with month and day padded to two
  digits; the first candidate is the original name and candidate \<open>k\<close> is
  \<open>base-k\<close> with the extension; a file already at its first candidate path gets no
  operation; otherwise, with every candidate before \<open>n\<close> present as a file with another
  fingerprint, a missing candidate \<open>n\<close> gives a Move to it, a candidate \<open>n\<close> that is a
  file with the source's fingerprint gives a Delete that cites it, and a candidate \<open>n\<close>
  that is a directory gives no operation: planning fails with the read error.
\<close>

theorem planEntry_non_duplicate:
  assumes nd: "\<not> isDuplicate info"
    and td: "tdir = targetDirOf root (info_date info)"
    and earlier: "\<forall>m<n. differs fs info tdir m"
  shows
   "tdir = root @ [show_int (getFullYear (info_date info)),
                   show_int (getFullYear (info_date info)) @ ''-''
                     @ padStart2 (show_nat (getMonth (info_date info) + 1)) @ ''-''
                     @ padStart2 (show_nat (getDate (info_date info)))] \<and>
    (getMonth (info_date info) < 12 \<longrightarrow>
       padStart2 (show_nat (getMonth (info_date info) + 1)) =
         [digit_char ((getMonth (info_date info) + 1) div 10), digit_char (getMonth (info_date info) + 1)]) \<and>
    (getDate (info_date info) < 32 \<longrightarrow>
       padStart2 (show_nat (getDate (info_date info))) =
         [digit_char (getDate (info_date info) div 10), digit_char (getDate (info_date info))]) \<and>
    candidatePath info tdir 0 = join tdir (basename (info_path info)) \<and>
    candidateName (basename (info_path info)) (Suc k) =
       fst (splitNameAndExt (basename (info_path info))) @ ''-'' @ show_nat (Suc k)
         @ snd (splitNameAndExt (basename (info_path info))) \<and>
    (info_path info = join tdir (basename (info_path info)) \<longrightarrow>
       planEntry fs root info = Some (Inr None)) \<and>
    (info_path info \<noteq> join tdir (basename (info_path info)) \<longrightarrow>
     fs (candidatePath info tdir n) = None \<longrightarrow>
       planEntry fs root info =
         Some (Inr (Some (Move (info_path info) (candidatePath info tdir n) tdir)))) \<and>
    (info_path info \<noteq> join tdir (basename (info_path info)) \<longrightarrow>
     (\<exists>sz dg d. fs (candidatePath info tdir n) = Some (FileN sz dg d)
         \<and> fingerprint sz dg = info_hash info) \<longrightarrow>
       planEntry fs root info =
         Some (Inr (Some (Delete (info_path info)
           (''Duplicate of '' @ path_str (candidatePath info tdir n)))))) \<and>
    (info_path info \<noteq> join tdir (basename (info_path info)) \<longrightarrow>
     fs (candidatePath info tdir n) = Some DirN \<longrightarrow>
       planEntry fs root info = Some (Inl EISDIR))"
proof -
  have dir: "tdir = root @ [show_int (getFullYear (info_date info)),
                   show_int (getFullYear (info_date info)) @ ''-''
                     @ padStart2 (show_nat (getMonth (info_date info) + 1)) @ ''-''
                     @ padStart2 (show_nat (getDate (info_date info)))]"
    unfolding td by (rule targetDirOf_eq)
  have month: "padStart2 (show_nat (getMonth (info_date info) + 1)) =
         [digit_char ((getMonth (info_date info) + 1) div 10), digit_char (getMonth (info_date info) + 1)]"
    if "getMonth (info_date info) < 12"
    using that by (intro show_nat_two) simp
  have day: "padStart2 (show_nat (getDate (info_date info))) =
         [digit_char (getDate (info_date info) div 10), digit_char (getDate (info_date info))]"
    if "getDate (info_date info) < 32"
    using that by (intro show_nat_two) simp
  have c0: "candidatePath info tdir 0 = join tdir (basename (info_path info))"
    by (simp add: candidatePath_def candidateName_0)
  have ck: "candidateName (basename (info_path info)) (Suc k) =
       fst (splitNameAndExt (basename (info_path info))) @ ''-'' @ show_nat (Suc k)
         @ snd (splitNameAndExt (basename (info_path info)))"
    by (simp add: candidateName_def split_beta)
  have skip: "resolveDestinationOperation fs info tdir = resolveFrom fs info tdir n"
    unfolding resolveDestinationOperation_def using earlier by (rule resolveFrom_skip)
  have organized: "planEntry fs root info = Some (Inr None)"
    if "info_path info = join tdir (basename (info_path info))"
    using that nd td by (simp add: planEntry_def Let_def)
  have move: "planEntry fs root info =
         Some (Inr (Some (Move (info_path info) (candidatePath info tdir n) tdir)))"
    if "info_path info \<noteq> join tdir (basename (info_path info))"
      and "fs (candidatePath info tdir n) = None"
    using that nd td skip resolveFrom_free[of fs info tdir n]
    by (simp add: planEntry_def Let_def)
  have del: "planEntry fs root info =
         Some (Inr (Some (Delete (info_path info)
           (''Duplicate of '' @ path_str (candidatePath info tdir n)))))"
    if "info_path info \<noteq> join tdir (basename (info_path info))"
      and "\<exists>sz dg d. fs (candidatePath info tdir n) = Some (FileN sz dg d)
         \<and> fingerprint sz dg = info_hash info"
  proof -
    from that(2) obtain sz dg d where "fs (candidatePath info tdir n) = Some (FileN sz dg d)"
      "fingerprint sz dg = info_hash info" by blast
    then have "resolveFrom fs info tdir n = Some (Inr (ResDelete (candidatePath info tdir n)))"
      by (rule resolveFrom_same)
    with that(1) nd td skip show ?thesis by (simp add: planEntry_def Let_def)
  qed
  have isdir: "planEntry fs root info = Some (Inl EISDIR)"
    if "info_path info \<noteq> join tdir (basename (info_path info))"
      and "fs (candidatePath info tdir n) = Some DirN"
    using that(1) nd td skip resolveFrom_dir[of fs info tdir n, OF that(2)]
    by (simp add: planEntry_def Let_def)
  from dir month day c0 ck organized move del isdir show ?thesis by blast
qed

theorem planEntry_non_duplicate_witness:
  "\<not> isDuplicate info_x \<and> day_dir = targetDirOf [''r''] (info_date info_x) \<and>
   differs fs_taken info_x day_dir 0 \<and>
   getMonth (info_date info_x) < 12 \<and> getDate (info_date info_x) < 32 \<and>
   info_path info_x \<noteq> join day_dir (basename (info_path info_x)) \<and>
   fs_taken (candidatePath info_x day_dir 1) = None \<and>
   day_dir = [''r'', ''2023'', ''2023-06-01''] \<and>
   planEntry fs_taken [''r''] info_x =
     Some (Inr (Some (Move [''r'', ''a'', ''x.jpg''] [''r'', ''2023'', ''2023-06-01'', ''x-1.jpg'']
                       day_dir))) \<and>
   fs_dir (candidatePath info_x day_dir 0) = Some DirN \<and>
   planEntry fs_dir [''r''] info_x = Some (Inl EISDIR)"
proof -
  have nd: "\<not> isDuplicate info_x" by (simp add: info_x_def)
  have td: "day_dir = targetDirOf [''r''] (info_date info_x)" by code_simp
  have d0: "differs fs_taken info_x day_dir 0"
    unfolding differs_def candidate_x_0 by (simp add: fs_taken_def fingerprint_def info_x_def)
  then have earlier: "\<forall>m<1. differs fs_taken info_x day_dir m" by simp
  have md: "getMonth (info_date info_x) < 12" "getDate (info_date info_x) < 32"
    by (simp_all add: info_x_def june1_def)
  have ne: "info_path info_x \<noteq> join day_dir (basename (info_path info_x))"
    by (simp add: info_x_def day_dir_def basename_def join_plain plain_name_def)
  have free: "fs_taken (candidatePath info_x day_dir 1) = None"
    unfolding candidate_x_1 by (simp add: fs_taken_def)
  have p: "info_path info_x = [''r'', ''a'', ''x.jpg'']" by (simp add: info_x_def)
  have none: "\<forall>m<0. differs fs_dir info_x day_dir m" by simp
  have isdir: "fs_dir (candidatePath info_x day_dir 0) = Some DirN"
    unfolding candidate_x_0 by (simp add: fs_dir_def)
  have thrown: "planEntry fs_dir [''r''] info_x = Some (Inl EISDIR)"
    using planEntry_non_duplicate[OF nd td none, of 0] ne isdir by simp
  from planEntry_non_duplicate[OF nd td earlier, of 0] nd td d0 md ne free isdir thrown
  show ?thesis unfolding candidate_x_1 p by (simp add: day_dir_def)
qed

section \<open>Two sources planned onto one destination\<close>

text \<open>
  C1.  The planning pass on two files of the same name and date and of different content,
  in two source folders, with the destination folder empty: both are planned as a Move to
  the same destination path, since candidates are checked against the disk only.
\<close>

theorem organizePlan_same_target:
  "organizePlan fs_collide [''r''] files_ab = Some (Inr plan_collide) \<and>
   \<not> distinct (moveTargets plan_collide)"
  by code_simp


section \<open>Duplicate detection in scan order\<close>

lemma readFileInfos_acc:
  "readFileInfos fs ps seen acc =
     (case readFileInfos fs ps seen [] of Inl e \<Rightarrow> Inl e | Inr (new, s) \<Rightarrow> Inr (acc @ new, s))"
proof (induction ps arbitrary: seen acc)
  case Nil
  show ?case by simp
next
  case (Cons p rest)
  show ?case
  proof (cases "fs p")
    case None
    then show ?thesis by simp
  next
    case (Some nd)
    show ?thesis
    proof (cases nd)
      case DirN
      with Some show ?thesis by simp
    next
      case (FileN sz dg d)
      show ?thesis
        using Some FileN
        by (simp add: Let_def Cons.IH[of _ "acc @ _"] Cons.IH[of _ "[_]"]
                 split: option.splits sum.splits prod.splits)
    qed
  qed
qed

lemma readFileInfos_Cons:
  assumes "readFileInfos fs (p # rest) seen [] = Inr (new, seen')"
  obtains sz dg d x new' where
    "fs p = Some (FileN sz dg d)"
    "new = x # new'"
    "info_path x = p"
    "info_hash x = fingerprint sz dg"
    "isDuplicate x = (seen (fingerprint sz dg) \<noteq> None)"
    "originalPath x = seen (fingerprint sz dg)"
    "readFileInfos fs rest
       (if seen (fingerprint sz dg) = None then seen(fingerprint sz dg \<mapsto> p) else seen) []
       = Inr (new', seen')"
    "x = \<lparr>info_path = p, info_size = sz, info_date = d, info_hash = fingerprint sz dg,
          isDuplicate = (seen (fingerprint sz dg) \<noteq> None),
          originalPath = seen (fingerprint sz dg)\<rparr>"
proof (cases "fs p")
  case None
  with assms show ?thesis by simp
next
  case (Some nd)
  show ?thesis
  proof (cases nd)
    case DirN
    with Some assms show ?thesis by simp
  next
    case (FileN sz dg d)
    show ?thesis
    proof (cases "seen (fingerprint sz dg)")
      case None
      with assms Some FileN show ?thesis
        by (intro that[of sz dg d _ "fst (projr (readFileInfos fs rest (seen(fingerprint sz dg \<mapsto> p)) []))"])
           (auto simp: Let_def readFileInfos_acc[of _ _ _ "[_]"] split: sum.splits prod.splits)
    next
      case (Some orig)
      with assms \<open>fs p = Some nd\<close> FileN show ?thesis
        by (intro that[of sz dg d _ "fst (projr (readFileInfos fs rest seen []))"])
           (auto simp: Let_def readFileInfos_acc[of _ _ _ "[_]"] split: sum.splits prod.splits)
    qed
  qed
qed

lemma readFileInfos_paths:
  "readFileInfos fs ps seen [] = Inr (new, seen') \<Longrightarrow> map info_path new = ps"
proof (induction ps arbitrary: seen new)
  case Nil
  then show ?case by simp
next
  case (Cons p rest)
  from Cons.prems show ?case
    by (elim readFileInfos_Cons) (use Cons.IH in auto)
qed

lemma readFileInfos_hashes:
  "readFileInfos fs ps seen [] = Inr (new, seen') \<Longrightarrow> map (\<lambda>x. Inr (info_hash x)) new = map (getFileHash fs) ps"
proof (induction ps arbitrary: seen new)
  case Nil
  then show ?case by simp
next
  case (Cons p rest)
  from Cons.prems show ?case
    by (elim readFileInfos_Cons) (use Cons.IH in \<open>auto simp: getFileHash_def\<close>)
qed

lemma readFileInfos_mono:
  "readFileInfos fs ps seen [] = Inr (new, seen') \<Longrightarrow> seen h = Some q \<Longrightarrow> seen' h = Some q"
proof (induction ps arbitrary: seen new)
  case Nil
  then show ?case by simp
next
  case (Cons p rest)
  from Cons.prems(1) show ?case
  proof (elim readFileInfos_Cons)
    fix sz dg d x new'
    assume r: "readFileInfos fs rest
       (if seen (fingerprint sz dg) = None then seen(fingerprint sz dg \<mapsto> p) else seen) []
       = Inr (new', seen')"
    have "(if seen (fingerprint sz dg) = None then seen(fingerprint sz dg \<mapsto> p) else seen) h = Some q"
      using Cons.prems(2) by auto
    with r show "seen' h = Some q" by (rule Cons.IH)
  qed
qed


lemma readFileInfos_length:
  "readFileInfos fs ps seen [] = Inr (new, seen') \<Longrightarrow> length new = length ps"
  using readFileInfos_paths[of fs ps seen new seen'] by (metis length_map)

lemma readFileInfos_seen:
  "readFileInfos fs ps seen [] = Inr (new, seen') \<Longrightarrow> j < length ps \<Longrightarrow>
   seen (info_hash (new ! j)) = Some q \<Longrightarrow>
   isDuplicate (new ! j) \<and> originalPath (new ! j) = Some q"
proof (induction ps arbitrary: seen new j)
  case Nil
  then show ?case by simp
next
  case (Cons p rest)
  from Cons.prems(1) show ?case
  proof (elim readFileInfos_Cons)
    fix sz dg d x new'
    assume x: "new = x # new'" "info_hash x = fingerprint sz dg"
      "isDuplicate x = (seen (fingerprint sz dg) \<noteq> None)"
      "originalPath x = seen (fingerprint sz dg)"
    assume r: "readFileInfos fs rest
       (if seen (fingerprint sz dg) = None then seen(fingerprint sz dg \<mapsto> p) else seen) []
       = Inr (new', seen')"
    show ?thesis
    proof (cases j)
      case 0
      with x Cons.prems(3) show ?thesis by simp
    next
      case (Suc j')
      with Cons.prems(2) have j': "j' < length rest" by simp
      from Suc x Cons.prems(3) have s: "seen (info_hash (new' ! j')) = Some q" by simp
      then have "(if seen (fingerprint sz dg) = None then seen(fingerprint sz dg \<mapsto> p) else seen)
                   (info_hash (new' ! j')) = Some q"
        by auto
      from Cons.IH[OF r j' this] Suc x show ?thesis by simp
    qed
  qed
qed

lemma readFileInfos_first:
  "readFileInfos fs ps seen [] = Inr (new, seen') \<Longrightarrow> i < length ps \<Longrightarrow>
   seen (info_hash (new ! i)) = None \<Longrightarrow>
   \<forall>k<i. info_hash (new ! k) \<noteq> info_hash (new ! i) \<Longrightarrow>
   \<not> isDuplicate (new ! i) \<and> seen' (info_hash (new ! i)) = Some (ps ! i) \<and>
   (\<forall>j. i < j \<and> j < length ps \<and> info_hash (new ! j) = info_hash (new ! i) \<longrightarrow>
        isDuplicate (new ! j) \<and> originalPath (new ! j) = Some (ps ! i))"
proof (induction ps arbitrary: seen new i)
  case Nil
  then show ?case by simp
next
  case (Cons p rest)
  from Cons.prems(1) show ?case
  proof (elim readFileInfos_Cons)
    fix sz dg d x new'
    assume x: "new = x # new'" "info_hash x = fingerprint sz dg"
      "isDuplicate x = (seen (fingerprint sz dg) \<noteq> None)"
      "originalPath x = seen (fingerprint sz dg)"
    assume r: "readFileInfos fs rest
       (if seen (fingerprint sz dg) = None then seen(fingerprint sz dg \<mapsto> p) else seen) []
       = Inr (new', seen')"
    show ?thesis
    proof (cases i)
      case 0
      with x Cons.prems(3) have none: "seen (fingerprint sz dg) = None" by simp
      with r have r': "readFileInfos fs rest (seen(fingerprint sz dg \<mapsto> p)) [] = Inr (new', seen')"
        by simp
      have a: "\<not> isDuplicate (new ! i)" using 0 x none by simp
      have b: "seen' (info_hash (new ! i)) = Some (ps0 ! i)" if "ps0 = p # rest" for ps0
        using readFileInfos_mono[OF r', of "fingerprint sz dg" p] 0 x that by simp
      have c: "isDuplicate (new ! j) \<and> originalPath (new ! j) = Some ((p # rest) ! i)"
        if "i < j" "j < length (p # rest)" "info_hash (new ! j) = info_hash (new ! i)" for j
      proof -
        from that(1) 0 obtain j' where j: "j = Suc j'" by (cases j) auto
        with that(2) have j': "j' < length rest" by simp
        from that(3) j 0 x have "info_hash (new' ! j') = fingerprint sz dg" by simp
        then have "(seen(fingerprint sz dg \<mapsto> p)) (info_hash (new' ! j')) = Some p" by simp
        from readFileInfos_seen[OF r' j' this] j 0 x show ?thesis by simp
      qed
      from a b c show ?thesis by blast
    next
      case (Suc i')
      with Cons.prems(2) have i': "i' < length rest" by simp
      from Suc x Cons.prems(4) have ne0: "fingerprint sz dg \<noteq> info_hash (new' ! i')" by fastforce
      from Suc x Cons.prems(3) have "seen (info_hash (new' ! i')) = None" by simp
      with ne0 have s: "(if seen (fingerprint sz dg) = None then seen(fingerprint sz dg \<mapsto> p) else seen)
                   (info_hash (new' ! i')) = None"
        by auto
      have f: "\<forall>k<i'. info_hash (new' ! k) \<noteq> info_hash (new' ! i')"
      proof (intro allI impI)
        fix k assume "k < i'"
        then have "Suc k < i" using Suc by simp
        with Cons.prems(4) have "info_hash (new ! Suc k) \<noteq> info_hash (new ! i)" by blast
        with Suc x show "info_hash (new' ! k) \<noteq> info_hash (new' ! i')" by simp
      qed
      note ih = Cons.IH[OF r i' s f]
      have c: "isDuplicate (new ! j) \<and> originalPath (new ! j) = Some ((p # rest) ! i)"
        if "i < j" "j < length (p # rest)" "info_hash (new ! j) = info_hash (new ! i)" for j
      proof -
        from that(1) obtain j' where j: "j = Suc j'" by (cases j) auto
        with that Suc x have "i' < j' \<and> j' < length rest \<and> info_hash (new' ! j') = info_hash (new' ! i')"
          by simp
        with ih have "isDuplicate (new' ! j') \<and> originalPath (new' ! j') = Some (rest ! i')" by blast
        with j Suc x show ?thesis by simp
      qed
      have a: "\<not> isDuplicate (new ! i)" using ih Suc x by simp
      have b: "seen' (info_hash (new ! i)) = Some ((p # rest) ! i)" using ih Suc x by simp
      from a b c show ?thesis by blast
    qed
  qed
qed

lemma readFileInfos_append:
  "readFileInfos fs (xs @ ys) seen [] = Inr (new2, seen2) \<Longrightarrow>
   \<exists>new1 seen1 rest. readFileInfos fs xs seen [] = Inr (new1, seen1) \<and>
       readFileInfos fs ys seen1 [] = Inr (rest, seen2) \<and> new2 = new1 @ rest"
proof (induction xs arbitrary: seen new2)
  case Nil
  then show ?case by simp
next
  case (Cons p rest)
  from Cons.prems have "readFileInfos fs (p # (rest @ ys)) seen [] = Inr (new2, seen2)" by simp
  then show ?case
  proof (elim readFileInfos_Cons)
    fix sz dg d x new'
    assume x: "fs p = Some (FileN sz dg d)" "new2 = x # new'" "info_path x = p" "info_hash x = fingerprint sz dg"
      "isDuplicate x = (seen (fingerprint sz dg) \<noteq> None)"
      "originalPath x = seen (fingerprint sz dg)"
    assume r: "readFileInfos fs (rest @ ys)
       (if seen (fingerprint sz dg) = None then seen(fingerprint sz dg \<mapsto> p) else seen) []
       = Inr (new', seen2)"
    assume xdef: "x = \<lparr>info_path = p, info_size = sz, info_date = d, info_hash = fingerprint sz dg,
          isDuplicate = (seen (fingerprint sz dg) \<noteq> None),
          originalPath = seen (fingerprint sz dg)\<rparr>"
    from Cons.IH[OF r] obtain new1 seen1 rest' where
      a: "readFileInfos fs rest (if seen (fingerprint sz dg) = None then seen(fingerprint sz dg \<mapsto> p) else seen) [] = Inr (new1, seen1)"
      and b: "readFileInfos fs ys seen1 [] = Inr (rest', seen2)" and c: "new' = new1 @ rest'"
      by blast
    have "readFileInfos fs (p # rest) seen [] = Inr (x # new1, seen1)"
    proof (cases "seen (fingerprint sz dg)")
      case None
      with a x(1) xdef show ?thesis
        by (simp add: Let_def readFileInfos_acc[of _ _ _ "[_]"])
    next
      case (Some orig)
      with a x(1) xdef show ?thesis
        by (simp add: Let_def readFileInfos_acc[of _ _ _ "[_]"])
    qed
    with b c x show ?thesis by simp
  qed
qed

lemma resolveFrom_delete_cites:
  assumes "resolveFrom fs info tdir i = Some (Inr (ResDelete c))"
  shows "\<exists>n. c = candidatePath info tdir n \<and> getFileHash fs c = Inr (info_hash info)"
  using assms
proof (induct fs info tdir i "Inr (ResDelete c) :: ioerror + resolution"
        rule: resolveFrom.raw_induct[rotated 1, consumes 1, case_names step])
  case (step rf fs info tdir i)
  then show ?case
    by (auto simp: Let_def split: if_splits sum.splits)
qed


lemma planEntry_duplicate:
  "isDuplicate info \<Longrightarrow> originalPath info = Some q \<Longrightarrow>
   planEntry fs root info = Some (Inr (Some (Delete (info_path info) (''Duplicate of '' @ path_str q))))"
  by (simp add: planEntry_def)

lemma planEntry_delete_cites:
  assumes "\<not> isDuplicate info"
    and "planEntry fs root info = Some (Inr (Some (Delete s r)))"
  shows "\<exists>n. r = ''Duplicate of '' @ path_str (candidatePath info (targetDirOf root (info_date info)) n) \<and>
             getFileHash fs (candidatePath info (targetDirOf root (info_date info)) n) = Inr (info_hash info)"
proof -
  from assms obtain c where
    "resolveFrom fs info (targetDirOf root (info_date info)) 0 = Some (Inr (ResDelete c))"
    and r: "r = ''Duplicate of '' @ path_str c"
    by (auto simp: planEntry_def Let_def resolveDestinationOperation_def
             split: if_splits option.splits sum.splits resolution.splits)
  from resolveFrom_delete_cites[OF this(1)] r show ?thesis by blast
qed

text \<open>
  C5, as stated, fails: of two identical scanned files, the first in scan order is itself
  the source of a Delete when an identical file already sits at its destination path.
\<close>

theorem first_seen_deleted_counterexample:
  "getFileHash fs_organized (files_ab ! 0) = getFileHash fs_organized (files_ab ! 1) \<and>
   organizePlan fs_organized [''r''] files_ab = Some (Inr plan_organized) \<and>
   plan_organized ! 0 = Delete (files_ab ! 0) ''Duplicate of /r/2023/2023-06-01/x.jpg''"
  by code_simp

text \<open>
  C5, amended.  Among scanned files of one fingerprint, the first in scan order is never
  flagged as a duplicate and every later one gets a Delete whose reason cites the
  first-seen path; the fingerprint map holds that path and keeps every entry as the scan
  goes on.  The first file is the source of a Delete only through conflict resolution:
  the reason then cites a candidate destination path whose file has the same fingerprint.
\<close>

theorem duplicates_cite_first_seen:
  assumes R: "readFileInfos fs files Map.empty [] = Inr (infos, seen)"
    and ij: "i < j" "j < length files"
    and same: "getFileHash fs (files ! j) = getFileHash fs (files ! i)"
    and first: "\<forall>k<i. getFileHash fs (files ! k) \<noteq> getFileHash fs (files ! i)"
  shows "\<not> isDuplicate (infos ! i) \<and>
         planEntry fs root (infos ! j) =
           Some (Inr (Some (Delete (files ! j) (''Duplicate of '' @ path_str (files ! i))))) \<and>
         seen (info_hash (infos ! i)) = Some (files ! i) \<and>
         (\<forall>more infos2 seen2 h q.
            readFileInfos fs (files @ more) Map.empty [] = Inr (infos2, seen2) \<longrightarrow>
            seen h = Some q \<longrightarrow> seen2 h = Some q) \<and>
         (\<forall>s r. planEntry fs root (infos ! i) = Some (Inr (Some (Delete s r))) \<longrightarrow>
            (\<exists>n. r = ''Duplicate of '' @
                        path_str (candidatePath (infos ! i) (targetDirOf root (info_date (infos ! i))) n) \<and>
                 getFileHash fs (candidatePath (infos ! i) (targetDirOf root (info_date (infos ! i))) n)
                   = Inr (info_hash (infos ! i))))"
proof -
  have len: "length infos = length files" using R by (rule readFileInfos_length)
  have paths: "map info_path infos = files" using R by (rule readFileInfos_paths)
  have hs: "map (\<lambda>x. Inr (info_hash x)) infos = map (getFileHash fs) files"
    using R by (rule readFileInfos_hashes)
  have h: "getFileHash fs (files ! k) = Inr (info_hash (infos ! k))" if "k < length files" for k
  proof -
    have "map (getFileHash fs) files ! k = map (\<lambda>x. Inr (info_hash x)) infos ! k" using hs by simp
    with that len show ?thesis by simp
  qed
  have pj: "info_path (infos ! j) = files ! j"
    using paths ij(2) len by (metis nth_map)
  from ij have i: "i < length files" by simp
  have none: "Map.empty (info_hash (infos ! i)) = None" by simp
  have f: "\<forall>k<i. info_hash (infos ! k) \<noteq> info_hash (infos ! i)"
  proof (intro allI impI)
    fix k assume k: "k < i"
    with first have "getFileHash fs (files ! k) \<noteq> getFileHash fs (files ! i)" by blast
    with h[of k] h[of i] k i show "info_hash (infos ! k) \<noteq> info_hash (infos ! i)" by simp
  qed
  note fst = readFileInfos_first[OF R i none f]
  have sj: "info_hash (infos ! j) = info_hash (infos ! i)"
    using same h[of j] h[of i] ij by simp
  with fst ij have dj: "isDuplicate (infos ! j)" "originalPath (infos ! j) = Some (files ! i)"
    by blast+
  have a: "\<not> isDuplicate (infos ! i)" using fst by blast
  have b: "planEntry fs root (infos ! j) =
           Some (Inr (Some (Delete (files ! j) (''Duplicate of '' @ path_str (files ! i)))))"
    using planEntry_duplicate[OF dj] pj by simp
  have c: "seen (info_hash (infos ! i)) = Some (files ! i)" using fst by blast
  have d: "seen2 h = Some q"
    if "readFileInfos fs (files @ more) Map.empty [] = Inr (infos2, seen2)" "seen h = Some q"
    for more infos2 seen2 h q
  proof -
    from readFileInfos_append[OF that(1)] R obtain rest where
      "readFileInfos fs more seen [] = Inr (rest, seen2)" by auto
    from readFileInfos_mono[OF this that(2)] show ?thesis .
  qed
  have e: "\<exists>n. r = ''Duplicate of '' @
                        path_str (candidatePath (infos ! i) (targetDirOf root (info_date (infos ! i))) n) \<and>
                 getFileHash fs (candidatePath (infos ! i) (targetDirOf root (info_date (infos ! i))) n)
                   = Inr (info_hash (infos ! i))"
    if "planEntry fs root (infos ! i) = Some (Inr (Some (Delete s r)))" for s r
    using planEntry_delete_cites[OF a that] .
  from a b c d e show ?thesis by blast
qed

lemma show_nat_3: "show_nat 3 = ''3''"
  by (subst show_nat.simps) (simp add: digit_char_def)

lemma readFileInfos_ab:
  "readFileInfos fs_organized files_ab Map.empty [] =
     Inr (infos_ab, [''3-aa'' \<mapsto> [''r'', ''a'', ''x.jpg'']])"
  by (simp add: files_ab_def fs_organized_def fingerprint_def show_nat_3 infos_ab_def Let_def)

theorem duplicates_cite_first_seen_witness:
  "readFileInfos fs_organized files_ab Map.empty [] =
     Inr (infos_ab, [''3-aa'' \<mapsto> [''r'', ''a'', ''x.jpg'']]) \<and>
   (0::nat) < 1 \<and> 1 < length files_ab \<and>
   getFileHash fs_organized (files_ab ! 1) = getFileHash fs_organized (files_ab ! 0) \<and>
   \<not> isDuplicate (infos_ab ! 0) \<and>
   planEntry fs_organized [''r''] (infos_ab ! 1) =
     Some (Inr (Some (Delete [''r'', ''b'', ''x.jpg''] ''Duplicate of /r/a/x.jpg'')))"
proof -
  have l: "1 < length files_ab" by (simp add: files_ab_def)
  have s: "getFileHash fs_organized (files_ab ! 1) = getFileHash fs_organized (files_ab ! 0)"
    by (simp add: files_ab_def getFileHash_def fs_organized_def)
  have f: "\<forall>k<0. getFileHash fs_organized (files_ab ! k) \<noteq> getFileHash fs_organized (files_ab ! 0)"
    by simp
  have p: "files_ab ! 1 = [''r'', ''b'', ''x.jpg'']" "path_str (files_ab ! 0) = ''/r/a/x.jpg''"
    by (simp_all add: files_ab_def path_str_def)
  from duplicates_cite_first_seen[OF readFileInfos_ab _ l s f, of "[''r'']"] readFileInfos_ab l s p
  show ?thesis by simp
qed

section \<open>Key events on the review screen\<close>

lemma useInput_cases:
  assumes "useInput st input key = Inr st'"
  shows "st' = st
     \<or> st' = st\<lparr>selectedIndex := max (selectedIndex st - 1) 0\<rparr>
     \<or> st' = st\<lparr>selectedIndex := min (selectedIndex st + 1) (int (length (operations st)) - 1)\<rparr>
     \<or> st' = st\<lparr>renameMode := False\<rparr>
     \<or> (\<exists>np. operationAt (operations st) (selectedIndex st) \<noteq> None \<and>
            st' = st\<lparr>overrides := (overrides st)(selectedIndex st \<mapsto> OvRename np), renameMode := False\<rparr>)
     \<or> (\<exists>k. st' = st\<lparr>overrides := toggleOverride (overrides st) (selectedIndex st) k\<rparr>)
     \<or> st' = st\<lparr>overrides := (overrides st)(selectedIndex st := None)\<rparr>
     \<or> (\<exists>nm. st' = st\<lparr>renameInput := nm, renameMode := True\<rparr>)
     \<or> st' = st\<lparr>awaitingConfirm := False, status := ''Executing operations...'', executing := True\<rparr>
     \<or> st' = st\<lparr>awaitingConfirm := False, status := ''Canceled. No changes made.''\<rparr>"
  using assms unfolding useInput_def Let_def
  by (simp split: if_splits option.splits override.splits) blast+


lemma useInput_operations:
  "useInput st input key = Inr st' \<Longrightarrow> operations st' = operations st"
  by (drule useInput_cases) auto

text \<open>
  On a plan that is not empty the selection stays inside the plan and every override key
  is a position of the plan.
\<close>

lemma useInput_keeps_range:
  assumes ne: "operations st \<noteq> []" and sel: "selectionInRange st" and ov: "overridesInRange st"
    and step: "useInput st input key = Inr st'"
  shows "selectionInRange st' \<and> overridesInRange st'"
proof -
  have len: "0 < int (length (operations st))" using ne by simp
  from useInput_cases[OF step] show ?thesis
  proof (elim disjE exE conjE)
    fix k assume "st' = st\<lparr>overrides := toggleOverride (overrides st) (selectedIndex st) k\<rparr>"
    with sel ov show ?thesis
      by (auto simp: selectionInRange_def overridesInRange_def toggleOverride_def dom_def
               split: if_splits)
  qed (use sel ov len in \<open>auto simp: selectionInRange_def overridesInRange_def dom_def split: if_splits\<close>)
qed

lemma useInputs_keeps_range:
  "operations st \<noteq> [] \<Longrightarrow> selectionInRange st \<Longrightarrow> overridesInRange st \<Longrightarrow>
   useInputs st evs = Inr st' \<Longrightarrow> selectionInRange st' \<and> overridesInRange st'"
proof (induction evs arbitrary: st)
  case Nil
  then show ?case by simp
next
  case (Cons ev evs)
  obtain input key where ev: "ev = (input, key)" by (cases ev)
  from Cons.prems(4) ev obtain st1 where
    s1: "useInput st input key = Inr st1" and r: "useInputs st1 evs = Inr st'"
    by (auto split: sum.splits)
  from useInput_keeps_range[OF Cons.prems(1-3) s1] useInput_operations[OF s1] Cons.prems(1)
  have "operations st1 \<noteq> []" "selectionInRange st1" "overridesInRange st1" by simp_all
  from Cons.IH[OF this r] show ?case .
qed

text \<open>
  In rename mode Escape leaves the overrides as they are, and Enter sets the selected
  index's override to a rename into the planned target folder of a move, or into the
  source's own folder for a delete.
\<close>

lemma rename_mode_cancel:
  "awaitingConfirm st \<Longrightarrow> \<not> executing st \<Longrightarrow> renameMode st \<Longrightarrow> escape key \<Longrightarrow>
   useInput st input key = Inr (st\<lparr>renameMode := False\<rparr>)"
  by (simp add: useInput_def)

lemma rename_mode_commit:
  "awaitingConfirm st \<Longrightarrow> \<not> executing st \<Longrightarrow> renameMode st \<Longrightarrow> \<not> escape key \<Longrightarrow>
   returnKey key \<Longrightarrow> operationAt (operations st) (selectedIndex st) = Some op \<Longrightarrow>
   useInput st input key =
     Inr (st\<lparr>overrides := (overrides st)(selectedIndex st \<mapsto>
               OvRename (join (if isMove op then targetDir op else dirname (source op))
                              (renameInput st))),
             renameMode := False\<rparr>)"
  by (simp add: useInput_def Let_def)

text \<open>
  C2.  With the review screen in rename mode (entered by \<open>r\<close> on the first entry), the
  typed character \<open>y\<close> is neither Cancel nor Commit, and the handler starts execution on
  it; the typed character \<open>n\<close> cancels the run.
\<close>

theorem rename_mode_y_executes:
  "useInput (dryRunComplete plan_md) ''r'' noKey = Inr renaming \<and>
   renameMode renaming \<and>
   useInput renaming ''y'' noKey =
     Inr (renaming\<lparr>awaitingConfirm := False, status := ''Executing operations...'',
                    executing := True\<rparr>) \<and>
   useInput renaming ''n'' noKey =
     Inr (renaming\<lparr>awaitingConfirm := False, status := ''Canceled. No changes made.''\<rparr>)"
  by (simp add: useInput_def dryRunComplete_def noKey_def toLowerCase_def lower_char_def
       operationAt_def plan_md_def renaming_def basename_def)

theorem rename_mode_y_executes_witness:
  "awaitingConfirm renaming \<and> \<not> executing renaming \<and> renameMode renaming \<and>
   (\<exists>st'. useInput renaming ''y'' noKey = Inr st' \<and> executing st')"
  using rename_mode_y_executes by (simp add: renaming_def dryRunComplete_def)

text \<open>
  C4.  On an empty plan the key \<open>i\<close> creates an override at index 0, and the down arrow
  moves the selection to \<open>-1\<close>, where \<open>d\<close> then creates an override: neither key is a
  position of the plan.
\<close>

theorem empty_plan_override:
  "useInput (dryRunComplete []) ''i'' noKey =
     Inr ((dryRunComplete [])\<lparr>overrides := [0 \<mapsto> OvIgnore]\<rparr>) \<and>
   useInputs (dryRunComplete []) [([], noKey\<lparr>downArrow := True\<rparr>), (''d'', noKey)] =
     Inr ((dryRunComplete [])\<lparr>selectedIndex := - 1, overrides := [- 1 \<mapsto> OvDelete]\<rparr>)"
  by (simp add: useInput_def dryRunComplete_def noKey_def toLowerCase_def lower_char_def
       toggleOverride_def)

theorem empty_plan_override_witness:
  "awaitingConfirm (dryRunComplete []) \<and> \<not> executing (dryRunComplete []) \<and>
   operations (dryRunComplete []) = [] \<and>
   (\<exists>st'. useInput (dryRunComplete []) ''i'' noKey = Inr st' \<and> overrides st' 0 = Some OvIgnore)"
  using empty_plan_override by (simp add: dryRunComplete_def)


section \<open>The executor against its contract\<close>

lemma awaitAll_append:
  "awaitAll sys (cs @ ds) fs =
     (case awaitAll sys cs fs of Inl err \<Rightarrow> Inl err | Inr fs' \<Rightarrow> awaitAll sys ds fs')"
  by (induction cs arbitrary: fs) (auto split: sum.splits)

lemma body_calls_eq:
  "ov \<noteq> Some OvIgnore \<Longrightarrow>
   (case ov of
      Some OvDelete \<Rightarrow> [Unlink (source op)]
    | Some (OvRename finalTarget) \<Rightarrow> [MkdirP (dirname finalTarget), Rename (source op) finalTarget]
    | _ \<Rightarrow> if isDelete op then [Unlink (source op)]
           else if isMove op then [MkdirP (targetDir op), Rename (source op) (target op)]
           else []) = effectiveCalls op ov"
  by (cases op; cases ov; simp split: override.splits)

lemma withOverrides_drop:
  "i < length ops \<Longrightarrow>
   drop i (withOverrides ops ovr) = (ops ! i, ovr (int i)) # drop (Suc i) (withOverrides ops ovr)"
  by (simp add: withOverrides_def Cons_nth_drop_Suc[symmetric])

lemma executeFrom_end:
  "\<not> i < length ops \<Longrightarrow> executeFrom sys ops ovr i dirs fs = Inr (dirs, fs)"
  by (subst executeFrom.simps) simp

lemma executeFrom_ignore:
  "i < length ops \<Longrightarrow> ovr (int i) = Some OvIgnore \<Longrightarrow>
   executeFrom sys ops ovr i dirs fs = executeFrom sys ops ovr (Suc i) dirs fs"
  by (subst executeFrom.simps) (simp add: Let_def)

lemma executeFrom_apply:
  "i < length ops \<Longrightarrow> ovr (int i) \<noteq> Some OvIgnore \<Longrightarrow>
   executeFrom sys ops ovr i dirs fs =
     (case awaitAll sys (effectiveCalls (ops ! i) (ovr (int i))) fs of
        Inl err \<Rightarrow> Inl err
      | Inr fs' \<Rightarrow> executeFrom sys ops ovr (Suc i) (setAdd dirs (dirname (source (ops ! i)))) fs')"
  using body_calls_eq[of "ovr (int i)" "ops ! i"]
  by (subst executeFrom.simps) (simp add: Let_def split: sum.splits)

lemma executeFrom_spec:
  "executeFrom sys ops ovr i dirs fs =
     (case awaitAll sys (specCalls (drop i (withOverrides ops ovr))) fs of
        Inl err \<Rightarrow> Inl err
      | Inr fs' \<Rightarrow> Inr (foldl setAdd dirs (processedDirs (drop i (withOverrides ops ovr))), fs'))"
proof (induction "length ops - i" arbitrary: i dirs fs)
  case 0
  then have "\<not> i < length ops" by simp
  then show ?case
    by (simp add: executeFrom_end withOverrides_def specCalls_def processedDirs_def)
next
  case (Suc k)
  then have lt: "i < length ops" and k: "k = length ops - Suc i" by simp_all
  note dr = withOverrides_drop[OF lt, of ovr]
  note ih = Suc.hyps(1)[OF k]
  show ?case
  proof (cases "ovr (int i) = Some OvIgnore")
    case True
    have sc: "specCalls (drop i (withOverrides ops ovr)) =
                specCalls (drop (Suc i) (withOverrides ops ovr))"
      unfolding dr using True by (simp add: specCalls_def)
    have sd: "processedDirs (drop i (withOverrides ops ovr)) =
                processedDirs (drop (Suc i) (withOverrides ops ovr))"
      unfolding dr using True by (simp add: processedDirs_def)
    show ?thesis unfolding executeFrom_ignore[of i ops ovr, OF lt True] sc sd by (rule ih)
  next
    case False
    let ?calls = "effectiveCalls (ops ! i) (ovr (int i))"
    have sc: "specCalls (drop i (withOverrides ops ovr)) =
                ?calls @ specCalls (drop (Suc i) (withOverrides ops ovr))"
      unfolding dr by (simp add: specCalls_def)
    have sd: "processedDirs (drop i (withOverrides ops ovr)) =
                dirname (source (ops ! i)) # processedDirs (drop (Suc i) (withOverrides ops ovr))"
      unfolding dr using False by (simp add: processedDirs_def)
    show ?thesis
      unfolding executeFrom_apply[of i ops ovr, OF lt False] sc sd awaitAll_append
      by (simp add: ih split: sum.splits)
  qed
qed

lemma executeOperations_spec:
  "executeOperations sys ops ovr fs =
     (case awaitAll sys (specCalls (withOverrides ops ovr)) fs of
        Inl err \<Rightarrow> Inl err
      | Inr fs' \<Rightarrow> Inr (specDirs (withOverrides ops ovr), fs'))"
  by (simp add: executeOperations_def executeFrom_spec specDirs_def split: sum.splits)

lemma set_setAdd: "set (setAdd xs x) = insert x (set xs)"
  by (auto simp: setAdd_def)

lemma set_foldl_setAdd: "set (foldl setAdd ds xs) = set ds \<union> set xs"
  by (induction xs arbitrary: ds) (auto simp: set_setAdd)

lemma set_uniquePaths: "set (uniquePaths xs) = set xs"
  by (simp add: uniquePaths_def)

lemma rescan_set:
  "snd (findMediaFiles dir entries root (files, set dl)) = set (rescanVisited dir entries root dl)"
  "snd (forEntries dir entries root (files, set dl)) = set (forVisited dir entries root dl)"
proof (induction dir entries root dl and dir entries root dl arbitrary: files and files
       rule: rescanVisited_forVisited.induct)
  case (1 dir entries root dirSet)
  have "snd (forEntries dir entries root (files, set (setAdd dirSet dir))) =
        set (forVisited dir entries root (setAdd dirSet dir))"
    by (rule "1.IH")
  then show ?case by (simp add: set_setAdd)
next
  case (2 dir root dirSet)
  show ?case by simp
next
  case (3 dir name rest root dirSet)
  have "snd (forEntries dir rest root
          (if isMediaName name then files @ [join dir name] else files, set dirSet)) =
        set (forVisited dir rest root dirSet)"
    by (rule "3.IH")
  then show ?case by simp
next
  case (4 dir name sub rest root dirSet)
  show ?case
  proof (cases "isInOrganizedPath root (join dir name)")
    case True
    have "snd (forEntries dir rest root (files, set dirSet)) = set (forVisited dir rest root dirSet)"
      by (rule "4.IH"(1)[OF refl True])
    with True show ?thesis by (simp add: Let_def)
  next
    case False
    let ?d = "setAdd dirSet (join dir name)"
    obtain f1 d1 where r: "findMediaFiles (join dir name) sub root (files, set ?d) = (f1, d1)"
      by (cases "findMediaFiles (join dir name) sub root (files, set ?d)")
    have "snd (findMediaFiles (join dir name) sub root (files, set ?d)) =
          set (rescanVisited (join dir name) sub root ?d)"
      by (rule "4.IH"(2)[OF refl False])
    with r have d1: "d1 = set (rescanVisited (join dir name) sub root ?d)" by simp
    have "snd (forEntries dir rest root (f1, set (rescanVisited (join dir name) sub root ?d))) =
          set (forVisited dir rest root (rescanVisited (join dir name) sub root ?d))"
      by (rule "4.IH"(3)[OF refl False])
    with False r d1 show ?thesis by (simp add: Let_def set_setAdd)
  qed
qed


text \<open>
  C9, as stated, fails: entries 0 and 1 are ignored and no other entry has its source in
  \<open>/r/a\<close>, so the loop leaves \<open>/r/a/._x.jpg\<close> in place and records only \<open>/r/b\<close>; but
  the rescan that follows visits \<open>/r/a\<close>, which makes it a cleanup candidate, and pruning
  then deletes the ignored entry's source, a resource-fork file, with its folder.
\<close>

theorem ignored_folder_is_candidate_counterexample:
  "ovr_fork 0 = Some OvIgnore \<and> ovr_fork 1 = Some OvIgnore \<and>
   source (plan_fork ! 0) = [''r'', ''a'', ''._x.jpg''] \<and>
   source (plan_fork ! 1) = [''r'', ''b'', ''y.jpg''] \<and>
   lookupT fs_fork [''r'', ''a'', ''._x.jpg''] = Some FileT \<and>
   executeOperations treeCall plan_fork ovr_fork fs_fork =
     Inr ([[''r'', ''b'']],
          DirT [(''r'', DirT [(''a'', DirT [(''._x.jpg'', FileT)]),
                              (''b'', DirT [(''y.jpg'', FileT)])])]) \<and>
   confirmBranch plan_fork ovr_fork [''r''] fs_fork =
     Inr ([[''r'', ''b''], [''r''], [''r'', ''a'']],
          DirT [(''r'', DirT [(''b'', DirT [(''y.jpg'', FileT)])])],
          [[''r'', ''b''], [''r'', ''a''], [''r'', ''b'']]) \<and>
   lookupT (DirT [(''r'', DirT [(''b'', DirT [(''y.jpg'', FileT)])])]) [''r'', ''a'', ''._x.jpg'']
     = None"
  by code_simp

text \<open>
  C9, amended.  The execution loop is the contract's calls for each plan entry with its
  override, made in plan order against the filesystem: nothing for an ignored index,
  whose source folder the loop does not record on its account; \<open>mkdir\<close> of the new
  path's folder and a rename to the new path for a rename override, whatever the entry;
  an unlink for a delete override; without an override an unlink for a planned delete
  and \<open>mkdir\<close> of the target folder then the rename for a planned move.  The first
  failing call ends the run.  The folders recorded by the loop are the source folders of
  the entries that are not ignored.  When the confirm branch completes, the cleanup
  candidates are those folders together with every folder that the rescan of the root
  visits after the loop, the source folder of an ignored entry among them, and pruning
  runs on them.
\<close>

theorem executeOperations_follows_contract:
  "executeOperations sys ops ovr fs =
     (case awaitAll sys (specCalls (withOverrides ops ovr)) fs of
        Inl err \<Rightarrow> Inl err
      | Inr fs' \<Rightarrow> Inr (specDirs (withOverrides ops ovr), fs')) \<and>
   set (specDirs (withOverrides ops ovr)) = set (processedDirs (withOverrides ops ovr)) \<and>
   (confirmBranch ops ovr root tree = Inr (candidates, after) \<longrightarrow>
      (\<exists>tree1 entries.
          awaitAll treeCall (specCalls (withOverrides ops ovr)) tree = Inr tree1 \<and>
          lookupT tree1 root = Some (DirT entries) \<and>
          set candidates = set (processedDirs (withOverrides ops ovr))
                             \<union> snd (findMediaFiles root entries root ([], {})) \<and>
          after = pruneAfterExecution candidates root tree1))"
proof -
  have a: "executeOperations sys ops ovr fs =
     (case awaitAll sys (specCalls (withOverrides ops ovr)) fs of
        Inl err \<Rightarrow> Inl err
      | Inr fs' \<Rightarrow> Inr (specDirs (withOverrides ops ovr), fs'))" for sys :: "fscall \<Rightarrow> 'b \<Rightarrow> ioerror + 'b" and fs
    by (rule executeOperations_spec)
  have b: "set (specDirs (withOverrides ops ovr)) = set (processedDirs (withOverrides ops ovr))"
    by (simp add: specDirs_def set_foldl_setAdd)
  have c: "\<exists>tree1 entries.
          awaitAll treeCall (specCalls (withOverrides ops ovr)) tree = Inr tree1 \<and>
          lookupT tree1 root = Some (DirT entries) \<and>
          set candidates = set (processedDirs (withOverrides ops ovr))
                             \<union> snd (findMediaFiles root entries root ([], {})) \<and>
          after = pruneAfterExecution candidates root tree1"
    if run: "confirmBranch ops ovr root tree = Inr (candidates, after)"
  proof -
    from run obtain sourceDirs tree1 where
      e: "executeOperations treeCall ops ovr tree = Inr (sourceDirs, tree1)"
      by (cases "executeOperations treeCall ops ovr tree") (auto simp: confirmBranch_def)
    from e executeOperations_spec[of treeCall ops ovr tree]
    have aw: "awaitAll treeCall (specCalls (withOverrides ops ovr)) tree = Inr tree1"
      and sd: "sourceDirs = specDirs (withOverrides ops ovr)"
      by (auto split: sum.splits)
    from run e obtain entries where l: "lookupT tree1 root = Some (DirT entries)"
      by (cases "lookupT tree1 root")
         (auto simp: confirmBranch_def split: fstree.splits)
    let ?c = "uniquePaths (sourceDirs @ rescanVisited root entries root [])"
    have eq: "confirmBranch ops ovr root tree = Inr (?c, pruneAfterExecution ?c root tree1)"
      unfolding confirmBranch_def by (simp only: e l sum.case prod.case option.case fstree.case Let_def)
    note both = run[unfolded eq sum.inject prod.inject]
    from both have cd0: "?c = candidates" by (rule conjunct1)
    from both have af0: "pruneAfterExecution ?c root tree1 = after" by (rule conjunct2)
    from cd0 have cd: "candidates = ?c" by (rule sym)
    from af0 have af: "after = pruneAfterExecution candidates root tree1"
      unfolding cd0 by (rule sym)
    have "snd (findMediaFiles root entries root ([], set [])) = set (rescanVisited root entries root [])"
      by (rule rescan_set(1))
    then have cs: "set candidates = set (processedDirs (withOverrides ops ovr))
                             \<union> snd (findMediaFiles root entries root ([], {}))"
      unfolding cd sd by (simp add: b set_uniquePaths)
    show ?thesis
      by (rule exI[of _ tree1], rule exI[of _ entries]) (intro conjI aw l cs af)
  qed
  show ?thesis
    by (intro conjI impI a b c)
qed

theorem executeOperations_follows_contract_witness:
  "executeOperations logCall plan_md ovr_md [] =
     Inr ([[''r'', ''a''], [''r'', ''b'']],
          [MkdirP day_dir,
           Rename [''r'', ''a'', ''x.jpg''] [''r'', ''2023'', ''2023-06-01'', ''x.jpg''],
           MkdirP [''r'', ''b''],
           Rename [''r'', ''b'', ''y.jpg''] [''r'', ''b'', ''keep.jpg'']]) \<and>
   confirmBranch plan_md ovr_md [''r''] fs_md =
     Inr ([[''r'', ''a''], [''r'', ''b''], [''r''], [''r'', ''2023'']],
          DirT [(''r'', DirT [(''b'', DirT [(''keep.jpg'', FileT)]),
                              (''2023'', DirT [(''2023-06-01'', DirT [(''x.jpg'', FileT)])])])],
          [[''r'', ''2023''], [''r'', ''a''], [''r'', ''b''], [''r'', ''2023'', ''2023-06-01''],
           [''r'', ''2023''], [''r'', ''b'']]) \<and>
   (\<exists>tree1 entries.
      awaitAll treeCall (specCalls (withOverrides plan_md ovr_md)) fs_md = Inr tree1 \<and>
      lookupT tree1 [''r''] = Some (DirT entries) \<and>
      set [[''r'', ''a''], [''r'', ''b''], [''r''], [''r'', ''2023'']] =
        set (processedDirs (withOverrides plan_md ovr_md))
          \<union> snd (findMediaFiles [''r''] entries [''r''] ([], {})))"
proof -
  have w: "withOverrides plan_md ovr_md =
     [(Move [''r'', ''a'', ''x.jpg''] [''r'', ''2023'', ''2023-06-01'', ''x.jpg''] day_dir, None),
      (Delete [''r'', ''b'', ''y.jpg''] ''Duplicate of /r/a/x.jpg'',
        Some (OvRename [''r'', ''b'', ''keep.jpg'']))]"
    by (simp add: withOverrides_def plan_md_def ovr_md_def upt_rec)
  have l: "executeOperations logCall plan_md ovr_md [] =
     Inr ([[''r'', ''a''], [''r'', ''b'']],
          [MkdirP day_dir,
           Rename [''r'', ''a'', ''x.jpg''] [''r'', ''2023'', ''2023-06-01'', ''x.jpg''],
           MkdirP [''r'', ''b''],
           Rename [''r'', ''b'', ''y.jpg''] [''r'', ''b'', ''keep.jpg'']])"
    using executeOperations_follows_contract[of logCall plan_md ovr_md "[]"]
    unfolding w
    by (simp add: specCalls_def specDirs_def processedDirs_def setAdd_def logCall_def dirname_def)
  have r: "confirmBranch plan_md ovr_md [''r''] fs_md =
     Inr ([[''r'', ''a''], [''r'', ''b''], [''r''], [''r'', ''2023'']],
          DirT [(''r'', DirT [(''b'', DirT [(''keep.jpg'', FileT)]),
                              (''2023'', DirT [(''2023-06-01'', DirT [(''x.jpg'', FileT)])])])],
          [[''r'', ''2023''], [''r'', ''a''], [''r'', ''b''], [''r'', ''2023'', ''2023-06-01''],
           [''r'', ''2023''], [''r'', ''b'']])"
    by code_simp
  have e: "\<exists>tree1 entries.
      awaitAll treeCall (specCalls (withOverrides plan_md ovr_md)) fs_md = Inr tree1 \<and>
      lookupT tree1 [''r''] = Some (DirT entries) \<and>
      set [[''r'', ''a''], [''r'', ''b''], [''r''], [''r'', ''2023'']] =
        set (processedDirs (withOverrides plan_md ovr_md))
          \<union> snd (findMediaFiles [''r''] entries [''r''] ([], {}))"
    using executeOperations_follows_contract[of treeCall plan_md ovr_md fs_md "[''r'']" fs_md, THEN conjunct2,
         THEN conjunct2, rule_format, OF r]
    by (elim exE conjE) (intro exI conjI; assumption)
  show ?thesis
    by (intro conjI l r e)
qed

section \<open>The EXIF extractor never throws\<close>

lemma body_throws_null: "extractExifBody buf = Inl e \<Longrightarrow> extractExifDate buf = None"
  by (simp add: extractExifDate_def)

lemma body_header:
  "tiffOffset buf = Inr off \<Longrightarrow> getUint16 buf off False = Inr w \<Longrightarrow>
   w \<noteq> 0x4949 \<Longrightarrow> w \<noteq> 0x4D4D \<Longrightarrow> extractExifBody buf = Inr None"
  unfolding extractExifBody_def bindE_def by simp

lemma body_short: "length buf < 2 \<Longrightarrow> extractExifBody buf = Inl RangeError"
proof -
  assume "length buf < 2"
  then have "getUint16 buf 0 False = Inl RangeError" by (simp add: getUint16_def)
  then show ?thesis
    unfolding extractExifBody_def tiffOffset_def bindE_def by simp
qed

lemma body_no_ifd:
  assumes off: "tiffOffset buf = Inr off" and short: "length buf < off + 8"
  shows "extractExifBody buf = Inl RangeError \<or> extractExifBody buf = Inr None"
proof (cases "getUint16 buf off False")
  case (Inl e)
  then have "extractExifBody buf = Inl e"
    unfolding extractExifBody_def bindE_def using off by simp
  then show ?thesis by (cases e) simp
next
  case (Inr w)
  show ?thesis
  proof (cases "w \<noteq> 0x4949 \<and> w \<noteq> 0x4D4D")
    case True
    with off Inr show ?thesis by (simp add: body_header)
  next
    case False
    from short have "getUint32 buf (off + 4) (w = 0x4949) = Inl RangeError"
      by (simp add: getUint32_def)
    with off Inr False have "extractExifBody buf = Inl RangeError"
      unfolding extractExifBody_def bindE_def by (simp add: Let_def)
    then show ?thesis by simp
  qed
qed

text \<open>
  C8.  \<open>extractExifDate\<close> is a total function (the marker loop terminates on every
  buffer) that returns a date or null: every exception thrown inside the \<open>try\<close> block
  gives null; a byte-order word other than \<open>II\<close> or \<open>MM\<close> at the TIFF offset gives
  null; a buffer shorter than two bytes, or one that ends before the IFD offset field of
  the TIFF header, gives null; and a date is returned only when the body returns it.
\<close>

theorem extractExifDate_total:
  "(extractExifBody buf = Inl e \<longrightarrow> extractExifDate buf = None) \<and>
   (tiffOffset buf = Inr off \<longrightarrow> getUint16 buf off False = Inr w \<longrightarrow>
      w \<noteq> 0x4949 \<longrightarrow> w \<noteq> 0x4D4D \<longrightarrow> extractExifDate buf = None) \<and>
   (length buf < 2 \<longrightarrow> extractExifDate buf = None) \<and>
   (tiffOffset buf = Inr off \<longrightarrow> length buf < off + 8 \<longrightarrow> extractExifDate buf = None) \<and>
   (extractExifDate buf = None \<or>
      (\<exists>d. extractExifBody buf = Inr (Some d) \<and> extractExifDate buf = Some d))"
proof -
  have a: "extractExifDate buf = None" if "extractExifBody buf = Inl e"
    using that by (rule body_throws_null)
  have b: "extractExifDate buf = None"
    if "tiffOffset buf = Inr off" "getUint16 buf off False = Inr w" "w \<noteq> 0x4949" "w \<noteq> 0x4D4D"
    using body_header[OF that] by (simp add: extractExifDate_def)
  have c: "extractExifDate buf = None" if "length buf < 2"
    using body_short[OF that] by (simp add: extractExifDate_def)
  have d: "extractExifDate buf = None" if "tiffOffset buf = Inr off" "length buf < off + 8"
    using body_no_ifd[OF that] by (auto simp: extractExifDate_def)
  have e: "extractExifDate buf = None \<or>
      (\<exists>d. extractExifBody buf = Inr (Some d) \<and> extractExifDate buf = Some d)"
  proof (cases "extractExifBody buf")
    case (Inl x)
    then show ?thesis by (simp add: extractExifDate_def)
  next
    case (Inr r)
    then show ?thesis by (cases r) (simp_all add: extractExifDate_def)
  qed
  from a b c d e show ?thesis by blast
qed

lemma body_truncated: "extractExifBody [0x49, 0x49] = Inl RangeError"
  by (simp add: extractExifBody_def tiffOffset_def bindE_def getUint16_def getUint32_def)

lemma tiffOffset_zeros: "tiffOffset [0x00, 0x00] = Inr 0"
  by (simp add: tiffOffset_def bindE_def getUint16_def)

theorem extractExifDate_total_witness:
  "tiffOffset [0x00, 0x00] = Inr 0 \<and> getUint16 [0x00, 0x00] 0 False = Inr 0 \<and>
   extractExifDate [0x00, 0x00] = None \<and>
   extractExifBody [0x49, 0x49] = Inl RangeError \<and> extractExifDate [0x49, 0x49] = None"
proof -
  have g: "getUint16 [0x00, 0x00] 0 False = Inr 0" by (simp add: getUint16_def)
  from extractExifDate_total[of "[0x00, 0x00]" RangeError 0 0]
       extractExifDate_total[of "[0x49, 0x49]" RangeError 0 0]
       tiffOffset_zeros g body_truncated
  show ?thesis by simp
qed

text \<open>The extractor on a TIFF and on a JPEG that carry a \<open>DateTimeOriginal\<close>.\<close>

lemma readChars_numeral:
  "readChars buf valueOffset (numeral k) =
     (case getUint8 buf valueOffset of
        Inl e \<Rightarrow> Inl e
      | Inr c \<Rightarrow>
          (case readChars buf (valueOffset + 1) (pred_numeral k) of
             Inl e \<Rightarrow> Inl e
           | Inr cs \<Rightarrow> Inr (c # cs)))"
  by (simp add: numeral_eq_Suc)

lemma dated_string:
  "readChars tiff_dated 26 19 =
     Inr [50, 48, 50, 51, 58, 48, 54, 58, 48, 49, 32, 49, 50, 58, 51, 48, 58, 52, 53]"
  by (simp add: readChars_numeral getUint8_def tiff_dated_def)

lemma dated_match:
  "matchDate [50, 48, 50, 51, 58, 48, 54, 58, 48, 49, 32, 49, 50, 58, 51, 48, 58, 52, 53]
     = Some (NewDate 2023 5 1 12 30 45)"
  by (simp add: matchDate_def isDigit_def digitsValue_def)

lemma dated_entry: "dateTimeOriginal tiff_dated 0 True 10 = Inr (Some (NewDate 2023 5 1 12 30 45))"
  by (simp add: dateTimeOriginal_def bindE_def getUint16_def getUint32_def tiff_dated_def
        dated_string[unfolded tiff_dated_def] dated_match)

lemma extract_tiff_dated: "extractExifDate tiff_dated = Some (NewDate 2023 5 1 12 30 45)"
proof -
  have t: "tiffOffset tiff_dated = Inr 0"
    by (simp add: tiffOffset_def bindE_def getUint16_def tiff_dated_def)
  have h: "getUint16 tiff_dated 0 False = Inr 0x4949"
    by (simp add: getUint16_def tiff_dated_def)
  have i: "getUint32 tiff_dated 4 True = Inr 8"
    by (simp add: getUint32_def tiff_dated_def)
  have n: "getUint16 tiff_dated 8 True = Inr (Suc 0)"
    by (simp add: getUint16_def tiff_dated_def)
  have g: "getUint16 tiff_dated 10 True = Inr 0x9003"
    by (simp add: getUint16_def tiff_dated_def)
  have s: "scanEntries tiff_dated 0 True 10 (Suc 0) = Inr (Some (NewDate 2023 5 1 12 30 45))"
    by (simp add: g dated_entry)
  have "extractExifBody tiff_dated = Inr (Some (NewDate 2023 5 1 12 30 45))"
    unfolding extractExifBody_def bindE_def t sum.case h if_False Let_def
    by (simp add: i n s del: scanEntries.simps)
  then show ?thesis by (simp add: extractExifDate_def)
qed

lemma tiffOffset_jpeg: "tiffOffset jpeg_dated = Inr 12"
  by (simp add: tiffOffset_def bindE_def getUint16_def getUint32_def jpeg_dated_def
        tiff_dated_def findTiff.simps[of _ 2] Let_def)

section \<open>The scanner and organized folders\<close>

lemma commonPrefixLen_append: "commonPrefixLen xs (xs @ ys) = length xs"
  by (induction xs) auto

lemma relative_below: "relative root (root @ segs) = joinSegs segs"
  by (simp add: relative_def commonPrefixLen_append)

lemma splitBy_sep:
  "\<forall>x\<in>set a. \<not> P x \<Longrightarrow> P c \<Longrightarrow> splitBy P (a @ c # b) = a # splitBy P b"
  by (induction a) auto

lemma length4: "length xs = 4 \<Longrightarrow> \<exists>a b c d. xs = [a, b, c, d]"
  by (auto simp: length_Suc_conv numeral_eq_Suc)

lemma length10: "length xs = 10 \<Longrightarrow> \<exists>a b c d e f g h i j. xs = [a, b, c, d, e, f, g, h, i, j]"
  by (auto simp: length_Suc_conv numeral_eq_Suc)

lemma isYearPart_chars: "isYearPart y \<Longrightarrow> c \<in> set y \<Longrightarrow> isDigitChar c"
  by (auto simp: isYearPart_def list_all_iff)

lemma isDayPart_chars: "isDayPart d \<Longrightarrow> c \<in> set d \<Longrightarrow> isDigitChar c \<or> c = CHR ''-''"
proof -
  assume d: "isDayPart d" and c: "c \<in> set d"
  then have "length d = 10" by (simp add: isDayPart_def)
  from length10[OF this] obtain a0 a1 a2 a3 a4 a5 a6 a7 a8 a9 where
    e: "d = [a0, a1, a2, a3, a4, a5, a6, a7, a8, a9]" by (elim exE)
  with d c show ?thesis by (auto simp: isDayPart_def)
qed

lemma digit_not_sep:
  "isDigitChar c \<Longrightarrow> c \<noteq> CHR ''/'' \<and> c \<noteq> CHR 0x5C \<and> c \<noteq> CHR ''.''"
  by (auto simp: isDigitChar_def)

lemma year_day_organized:
  assumes y: "isYearPart y" and d: "isDayPart d"
  shows "isInOrganizedPath root (root @ [y, d])"
proof -
  let ?P = "\<lambda>c. c = CHR 0x5C \<or> c = CHR ''/''"
  have ny: "\<forall>x\<in>set y. \<not> ?P x" using isYearPart_chars[OF y] digit_not_sep by blast
  have nd: "\<forall>x\<in>set d. \<not> ?P x" using isDayPart_chars[OF d] digit_not_sep by fastforce
  have rel: "relative root (root @ [y, d]) = y @ CHR ''/'' # d" by (simp add: relative_below)
  have sp: "splitBy ?P (y @ CHR ''/'' # d) = [y, d]"
    using splitBy_sep[of y ?P "CHR ''/''" d, OF ny] splitBy_no_sep[of d ?P, OF nd] by simp
  from y have "length y = 4" by (simp add: isYearPart_def)
  from length4[OF this] obtain a b c e where ye: "y = [a, b, c, e]" by (elim exE)
  with y have "isDigitChar a" "isDigitChar b" by (simp_all add: isYearPart_def)
  then have nodots: "take 2 (y @ CHR ''/'' # d) \<noteq> ''..''" using ye digit_not_sep by auto
  have ne: "y \<noteq> []" "d \<noteq> []" using y d by (auto simp: isYearPart_def isDayPart_def)
  show ?thesis
    unfolding isInOrganizedPath_def rel Let_def sp using nodots ne y d by simp
qed

lemma day_not_media: "isDayPart d \<Longrightarrow> \<not> isMediaName d"
proof -
  assume d: "isDayPart d"
  have "CHR ''.'' \<notin> set d"
    using isDayPart_chars[OF d] digit_not_sep by fastforce
  then have "extname d = []" by (simp add: extname_def)
  then show ?thesis
    by (simp add: isMediaName_def toLowerCase_def IMAGE_EXTENSIONS_def RAW_EXTENSIONS_def
          VIDEO_EXTENSIONS_def)
qed

lemma organizedUnder_child:
  assumes pre: "take (length root) dir = root" and no: "\<not> organizedUnder root dir"
    and org: "organizedUnder root (dir @ [name])"
  shows "\<exists>y. dir = root @ [y] \<and> isYearPart y \<and> isDayPart name"
proof -
  obtain segs where dir: "dir = root @ segs"
    using pre by (metis append_take_drop_id)
  from no dir have short: "\<not> (\<exists>y d rest. segs = y # d # rest \<and> isYearPart y \<and> isDayPart d)"
    by (auto simp: organizedUnder_def)
  from org dir obtain y d rest where s: "segs @ [name] = y # d # rest" "isYearPart y" "isDayPart d"
    by (auto simp: organizedUnder_def split: list.splits)
  show ?thesis
  proof (cases segs)
    case Nil
    with s show ?thesis by simp
  next
    case (Cons a as)
    show ?thesis
    proof (cases as)
      case Nil
      with Cons s dir show ?thesis by simp
    next
      case (Cons b bs)
      with \<open>segs = a # as\<close> s short show ?thesis by auto
    qed
  qed
qed

lemma scan_clean:
  "(take (length root) dir = root \<longrightarrow> \<not> organizedUnder root dir \<longrightarrow>
      list_all (\<lambda>(name, t). plain_name name \<and> plainTree t) entries \<longrightarrow> clean root acc \<longrightarrow>
      clean root (findMediaFiles dir entries root acc))" 
  "(take (length root) dir = root \<longrightarrow> \<not> organizedUnder root dir \<longrightarrow>
      list_all (\<lambda>(name, t). plain_name name \<and> plainTree t) entries \<longrightarrow> clean root acc \<longrightarrow>
      clean root (forEntries dir entries root acc))"
proof (induction dir entries root acc and dir entries root acc rule: findMediaFiles_forEntries.induct)
  case (1 dir entries root files dirSet)
  show ?case
  proof (intro impI)
    assume a: "take (length root) dir = root" "\<not> organizedUnder root dir"
      "list_all (\<lambda>(name, t). plain_name name \<and> plainTree t) entries" "clean root (files, dirSet)"
    from a(2,4) have c0: "clean root (files, insert dir dirSet)" by (simp add: clean_def)
    have "clean root (forEntries dir entries root (files, insert dir dirSet))"
      by (rule "1.IH"[rule_format, OF a(1) a(2) a(3) c0])
    then show "clean root (findMediaFiles dir entries root (files, dirSet))" by simp
  qed
next
  case (2 dir root acc)
  show ?case by simp
next
  case (3 dir name rest root files dirSet)
  show ?case
  proof (intro impI)
    assume a: "take (length root) dir = root" "\<not> organizedUnder root dir"
      "list_all (\<lambda>(name, t). plain_name name \<and> plainTree t) ((name, FileT) # rest)"
      "clean root (files, dirSet)"
    from a(3) have pn: "plain_name name"
      and pr: "list_all (\<lambda>(name, t). plain_name name \<and> plainTree t) rest" by simp_all
    have c0: "clean root (if isMediaName name then files @ [join dir name] else files, dirSet)"
    proof (cases "isMediaName name")
      case False
      with a(4) show ?thesis by simp
    next
      case True
      have "\<not> organizedUnder root (dir @ [name])"
      proof
        assume "organizedUnder root (dir @ [name])"
        from organizedUnder_child[OF a(1,2) this] have "isDayPart name" by (elim exE conjE)
        from day_not_media[OF this] True show False by (rule notE)
      qed
      with a(4) True pn show ?thesis by (simp add: clean_def join_plain)
    qed
    have "clean root (forEntries dir rest root
            (if isMediaName name then files @ [join dir name] else files, dirSet))"
      by (rule "3.IH"[rule_format, OF a(1) a(2) pr c0])
    then show "clean root (forEntries dir ((name, FileT) # rest) root (files, dirSet))"
      by simp
  qed
next
  case (4 dir name sub rest root files dirSet)
  show ?case
  proof (intro impI)
    assume a: "take (length root) dir = root" "\<not> organizedUnder root dir"
      "list_all (\<lambda>(name, t). plain_name name \<and> plainTree t) ((name, DirT sub) # rest)"
      "clean root (files, dirSet)"
    from a(3) have pn: "plain_name name"
      and ps: "list_all (\<lambda>(name, t). plain_name name \<and> plainTree t) sub"
      and pr: "list_all (\<lambda>(name, t). plain_name name \<and> plainTree t) rest"
      by simp_all
    have j: "join dir name = dir @ [name]" using pn by (rule join_plain)
    show "clean root (forEntries dir ((name, DirT sub) # rest) root (files, dirSet))"
    proof (cases "isInOrganizedPath root (join dir name)")
      case True
      have "clean root (forEntries dir rest root (files, dirSet))"
        by (rule "4.IH"(1)[OF refl True, rule_format, OF a(1) a(2) pr a(4)])
      with True show ?thesis by (simp add: Let_def)
    next
      case False
      have no: "\<not> organizedUnder root (dir @ [name])"
      proof
        assume "organizedUnder root (dir @ [name])"
        from organizedUnder_child[OF a(1,2) this] obtain y where
          "dir = root @ [y]" "isYearPart y" "isDayPart name" by (elim exE conjE)
        with year_day_organized[of y name root] False j show False by simp
      qed
      have "length root \<le> length dir" using a(1) by (metis length_take min.cobounded1 min.commute)
      then have pre: "take (length root) (dir @ [name]) = root"
        using a(1) by simp
      from a(4) no have c0: "clean root (files, insert (join dir name) dirSet)"
        by (simp add: clean_def j)
      have c1: "clean root (findMediaFiles (join dir name) sub root (files, insert (join dir name) dirSet))"
        by (rule "4.IH"(2)[OF refl False, rule_format, OF pre[folded j] no[folded j] ps c0])
      have "clean root (forEntries dir rest root
              (findMediaFiles (join dir name) sub root (files, insert (join dir name) dirSet)))"
        by (rule "4.IH"(3)[OF refl False, rule_format, OF a(1) a(2) pr c1])
      with False show ?thesis by (simp add: Let_def)
    qed
  qed
qed

lemma plainTree_lookupT: "plainTree t \<Longrightarrow> lookupT t p = Some t' \<Longrightarrow> plainTree t'"
proof (induction t p rule: lookupT.induct)
  case (1 t)
  then show ?case by simp
next
  case (2 s p)
  then show ?case by simp
next
  case (3 es s p)
  from "3.prems"(2) obtain t0 where m: "map_of es s = Some t0" and l: "lookupT t0 p = Some t'"
    by (auto split: option.splits)
  from m have "(s, t0) \<in> set es" by (rule map_of_SomeD)
  with "3.prems"(1) have "plainTree t0" by (auto simp: list_all_iff)
  from "3.IH"[OF m this l] show ?case .
qed

lemma scan_r: "scan fs_r [''r''] = Inr (files_r, dirs_r)"
  by code_simp

text \<open>
  C3, as stated, fails: the day folder \<open>/r/2023/2023-06-01\<close> is met while its parent
  \<open>/r/2023\<close> is listed, and its path is not put into the visited-directory set.
\<close>

theorem organized_dir_not_recorded_counterexample:
  "lookupT fs_r [''r'', ''2023'', ''2023-06-01''] = Some (DirT [(''x.jpg'', FileT)]) \<and>
   isYearPart ''2023'' \<and> isDayPart ''2023-06-01'' \<and>
   scan fs_r [''r''] = Inr (files_r, dirs_r) \<and>
   [''r'', ''2023''] \<in> dirs_r \<and>
   [''r'', ''2023'', ''2023-06-01''] \<notin> dirs_r"
  by code_simp

text \<open>
  C3, amended.  A directory whose path below the scan root starts with a four-digit year
  segment and a \<open>YYYY-MM-DD\<close> segment is skipped entirely: neither its own path nor any
  path below it is in the visited-directory set, and no file at or below it is in the
  file list.
\<close>

theorem scan_skips_organized:
  assumes "scan fs root = Inr (files, dirSet)" and "plainTree fs" and "organizedUnder root p"
  shows "p \<notin> set files \<and> p \<notin> dirSet"
proof -
  from assms(1) obtain entries where l: "lookupT fs root = Some (DirT entries)"
    and r: "findMediaFiles root entries root ([], {}) = (files, dirSet)"
    by (auto simp: scan_def split: option.splits fstree.splits)
  from plainTree_lookupT[OF assms(2) l]
  have pe: "list_all (\<lambda>(name, t). plain_name name \<and> plainTree t) entries" by simp
  have pre: "take (length root) root = root" by simp
  have no: "\<not> organizedUnder root root" by (simp add: organizedUnder_def)
  have c0: "clean root ([], {})" by (simp add: clean_def)
  have "clean root (findMediaFiles root entries root ([], {}))"
    by (rule scan_clean(1)[rule_format, OF pre no pe c0])
  with r assms(3) show ?thesis by (auto simp: clean_def)
qed

theorem scan_skips_organized_witness:
  "scan fs_r [''r''] = Inr (files_r, dirs_r) \<and> plainTree fs_r \<and>
   organizedUnder [''r''] [''r'', ''2023'', ''2023-06-01''] \<and>
   [''r'', ''2023'', ''2023-06-01''] \<notin> set files_r \<and>
   [''r'', ''2023'', ''2023-06-01''] \<notin> dirs_r"
proof -
  have p: "plainTree fs_r" by code_simp
  have o: "organizedUnder [''r''] [''r'', ''2023'', ''2023-06-01'']" by code_simp
  from scan_skips_organized[OF scan_r p o] scan_r p o show ?thesis by simp
qed

section \<open>Pruning leaves the root in place\<close>

lemma commonPrefixLen_le: "commonPrefixLen a b \<le> length a"
  by (induction a b rule: commonPrefixLen.induct) auto

lemma commonPrefixLen_full: "commonPrefixLen a b = length a \<Longrightarrow> take (length a) b = a"
proof (induction a arbitrary: b)
  case Nil
  show ?case by simp
next
  case (Cons x xs)
  show ?case
  proof (cases b)
    case Nil
    with Cons.prems show ?thesis by simp
  next
    case (Cons y ys)
    with Cons.prems Cons.IH[of ys] show ?thesis by (auto split: if_splits)
  qed
qed

lemma joinSegs_dots: "take 2 (joinSegs (''..'' # xs)) = ''..''"
  by (cases xs) simp_all

lemma relative_below_root:
  assumes "\<not> (take 2 (relative stopAt current) = ''..'' \<or> relative stopAt current = [])"
  shows "strictlyBelow stopAt current"
proof -
  let ?n = "commonPrefixLen stopAt current"
  have le: "?n \<le> length stopAt" by (rule commonPrefixLen_le)
  have full: "?n = length stopAt"
  proof (rule ccontr)
    assume "?n \<noteq> length stopAt"
    with le have "0 < length stopAt - ?n" by simp
    then obtain k where "length stopAt - ?n = Suc k" by (cases "length stopAt - ?n") auto
    then have "take 2 (relative stopAt current) = ''..''"
      by (simp add: relative_def Let_def joinSegs_dots)
    with assms show False by simp
  qed
  then have pre: "take (length stopAt) current = stopAt" by (rule commonPrefixLen_full)
  from full have "relative stopAt current = joinSegs (drop (length stopAt) current)"
    by (simp add: relative_def)
  with assms have "drop (length stopAt) current \<noteq> []" by auto
  then have "length stopAt < length current" by simp
  with pre show ?thesis by (simp add: strictlyBelow_def)
qed

lemma plainEntries_simps [simp]:
  "plainEntries [] = True"
  "plainEntries ((n, t) # es) = (plain_name n \<and> plainTree t \<and> plainEntries es)"
  "plainTree (DirT es) = plainEntries es"
  by (simp_all add: plainEntries_def)

declare plainTree.simps(2) [simp del]

lemma plain_clean:
  "plainEntries es \<longrightarrow> plainEntries (cleanEntries es)"
  "plainEntries es \<longrightarrow> (\<forall>after. effectivelyEmpty es = Some after \<longrightarrow> plainEntries after)"
proof (induction es and es rule: cleanEntries_effectivelyEmpty.induct)
  case 1
  show ?case by simp
next
  case (2 name rest)
  then show ?case by simp
next
  case (3 name sub rest)
  then show ?case by (auto split: option.splits)
next
  case (4 entries)
  then show ?case by (auto simp: Let_def split: if_splits)
qed

lemma plain_update:
  "plainTree t \<longrightarrow> (\<forall>t'. new = Some t' \<longrightarrow> plainTree t') \<longrightarrow> plainTree (updateT t p new)"
  "plainEntries es \<longrightarrow> (\<forall>t'. new = Some t' \<longrightarrow> plainTree t') \<longrightarrow>
     plainEntries (updateEntries es s p new)"
proof (induction t p new and es s p new rule: updateT_updateEntries.induct)
  case (1 t new)
  show ?case by (cases new) simp_all
next
  case (2 s p new)
  show ?case by simp
next
  case (3 es s p new)
  then show ?case by simp
next
  case (4 s p new)
  show ?case by simp
next
  case (5 n t es s p new)
  then show ?case by (cases new) auto
qed

lemma lookup_updateEntries:
  "p \<noteq> [] \<Longrightarrow> map_of es s = Some t \<Longrightarrow>
   map_of (updateEntries es s p new) s = Some (updateT t p new)"
  by (induction es) (auto split: if_splits)

lemma isDirAt_update:
  "isDirAt fs root \<Longrightarrow> isDirAt (updateT fs (root @ s # q) new) root"
proof (induction root arbitrary: fs)
  case Nil
  then show ?case by (cases fs) (simp_all add: isDirAt_def)
next
  case (Cons r rs)
  show ?case
  proof (cases fs)
    case FileT
    with Cons.prems show ?thesis by (simp add: isDirAt_def)
  next
    case (DirT es)
    with Cons.prems obtain t where m: "map_of es r = Some t" and d: "isDirAt t rs"
      by (auto simp: isDirAt_def split: option.splits)
    have "map_of (updateEntries es r (rs @ s # q) new) r = Some (updateT t (rs @ s # q) new)"
      using m by (intro lookup_updateEntries) simp_all
    with Cons.IH[OF d] DirT show ?thesis by (simp add: isDirAt_def)
  qed
qed

lemma strictlyBelow_split: "strictlyBelow root p \<Longrightarrow> \<exists>s q. p = root @ s # q"
proof -
  assume a: "strictlyBelow root p"
  then have "p = root @ drop (length root) p" "drop (length root) p \<noteq> []"
    by (auto simp: strictlyBelow_def) (metis append_take_drop_id)
  then show ?thesis by (cases "drop (length root) p") auto
qed

lemma tryRemove_keeps:
  assumes b: "strictlyBelow root dir" and d: "isDirAt fs root" and pl: "plainTree fs"
  shows "isDirAt (snd (tryRemoveIfEffectivelyEmpty fs dir)) root \<and>
         plainTree (snd (tryRemoveIfEffectivelyEmpty fs dir))"
proof -
  from strictlyBelow_split[OF b] obtain s q where dir: "dir = root @ s # q" by blast
  have u: "isDirAt (updateT fs dir new) root" for new
    unfolding dir using d by (rule isDirAt_update)
  show ?thesis
  proof (cases "lookupT fs dir")
    case None
    with d pl show ?thesis by (simp add: tryRemoveIfEffectivelyEmpty_def)
  next
    case (Some nd)
    show ?thesis
    proof (cases nd)
      case FileT
      with Some d pl show ?thesis by (simp add: tryRemoveIfEffectivelyEmpty_def)
    next
      case (DirT entries)
      from plainTree_lookupT[OF pl Some] DirT have pe: "plainEntries entries" by simp
      have pc: "plainEntries (cleanEntries entries)" using plain_clean(1) pe by blast
      have pa: "plainEntries after" if "effectivelyEmpty entries = Some after" for after
        using plain_clean(2) pe that by blast
      have p1: "plainTree (updateT fs dir None)" using plain_update(1)[of fs None dir] pl by simp
      have p2: "plainTree (updateT fs dir (Some (DirT es')))" if "plainEntries es'" for es'
        using plain_update(1)[of fs "Some (DirT es')" dir] pl that by simp
      show ?thesis
      proof (cases "effectivelyEmpty entries")
        case None
        have dn: "dir \<noteq> []" using dir by simp
        with None Some DirT u[of None] p1 show ?thesis
          by (simp add: tryRemoveIfEffectivelyEmpty_def del: effectivelyEmpty.simps)
      next
        case (Some after)
        with \<open>lookupT fs dir = Some nd\<close> DirT u p2[OF pa[OF Some]] show ?thesis
          by (simp add: tryRemoveIfEffectivelyEmpty_def del: effectivelyEmpty.simps)
      qed
    qed
  qed
qed

lemma removeEmptyUpwards_keeps:
  "kept root st \<Longrightarrow> kept root (removeEmptyUpwards current root st)"
proof (induction current root st rule: removeEmptyUpwards.induct)
  case (1 current stopAt fs tried)
  show ?case
  proof (cases "current = stopAt \<or> take 2 (relative stopAt current) = ''..'' \<or>
                relative stopAt current = []")
    case True
    with "1.prems" show ?thesis by (subst removeEmptyUpwards.simps) (auto simp: Let_def)
  next
    case False
    then have ne: "current \<noteq> stopAt"
      and rel: "\<not> (take 2 (relative stopAt current) = ''..'' \<or> relative stopAt current = [])"
      by auto
    from relative_below_root[OF rel] have b: "strictlyBelow stopAt current" .
    obtain removed fs' where t: "tryRemoveIfEffectivelyEmpty fs current = (removed, fs')"
      by (cases "tryRemoveIfEffectivelyEmpty fs current")
    from "1.prems" have d: "isDirAt fs stopAt" and pl: "plainTree fs"
      and tr: "\<forall>p\<in>set tried. strictlyBelow stopAt p" by (simp_all add: kept_def)
    from tryRemove_keeps[OF b d pl] t have k': "kept stopAt (fs', tried @ [current])"
      using tr b by (simp add: kept_def)
    show ?thesis
    proof (cases removed)
      case True
      have "kept stopAt (removeEmptyUpwards (dirname current) stopAt (fs', tried @ [current]))"
        using ne rel t True k'
        by (intro "1.IH"[of "relative stopAt current" "(removed, fs')" removed fs']) simp_all
      with ne rel t True show ?thesis
        by (subst removeEmptyUpwards.simps) (simp add: Let_def)
    next
      case False
      with ne rel t k' show ?thesis
        by (subst removeEmptyUpwards.simps) (simp add: Let_def)
    qed
  qed
qed


lemma cleanup_keeps:
  "kept root st \<Longrightarrow> kept root (cleanupEmptyDirectories dirs root st)"
proof -
  have "kept root st \<Longrightarrow> kept root (foldl (\<lambda>st dir. removeEmptyUpwards dir root st) st ds)" for ds
    by (induction ds arbitrary: st) (simp_all add: removeEmptyUpwards_keeps)
  then show "kept root st \<Longrightarrow> kept root (cleanupEmptyDirectories dirs root st)"
    by (simp add: cleanupEmptyDirectories_def)
qed

lemma subdir_below:
  assumes pl: "plainTree fs" and d: "dir = root \<or> strictlyBelow root dir"
    and p: "p \<in> set (subdirPaths fs dir)"
  shows "strictlyBelow root p"
proof (cases "lookupT fs dir")
  case None
  with p show ?thesis by (simp add: subdirPaths_def)
next
  case (Some nd)
  show ?thesis
  proof (cases nd)
    case FileT
    with Some p show ?thesis by (simp add: subdirPaths_def)
  next
    case (DirT entries)
    with Some p have "\<exists>name t. (name, t) \<in> set entries \<and> p = join dir name"
      by (auto simp: subdirPaths_def)
    then obtain name t where e: "(name, t) \<in> set entries" and pj: "p = join dir name"
      by (elim exE conjE)
    from plainTree_lookupT[OF pl Some] DirT have "plainEntries entries" by simp
    with e have "plain_name name" by (auto simp: plainEntries_def list_all_iff)
    then have "p = dir @ [name]" using pj by (simp add: join_plain)
    with d show ?thesis by (auto simp: strictlyBelow_def)
  qed
qed

lemma walkDirs_below:
  "plainTree fs \<Longrightarrow> \<forall>p\<in>set stack \<union> set visited. p = root \<or> strictlyBelow root p \<Longrightarrow>
   \<forall>p\<in>set (walkDirs fs stack visited). p = root \<or> strictlyBelow root p"
proof (induction fs stack visited rule: walkDirs.induct)
  case (1 fs stack visited)
  show ?case
  proof (cases "stack = []")
    case True
    with "1.prems" show ?thesis by (subst walkDirs.simps) simp
  next
    case False
    then have ls: "last stack \<in> set stack" by simp
    have bs: "set (butlast stack) \<subseteq> set stack" by (auto dest: in_set_butlastD)
    show ?thesis
    proof (cases "last stack \<in> set visited")
      case True
      have "\<forall>p\<in>set (walkDirs fs (butlast stack) visited). p = root \<or> strictlyBelow root p"
        using False True "1.prems" bs
        by (intro "1.IH"(1)[of "last stack" "butlast stack"]) auto
      with False True show ?thesis by (subst walkDirs.simps) (simp add: Let_def)
    next
      case nv: False
      from "1.prems"(2) ls have d: "last stack = root \<or> strictlyBelow root (last stack)" by blast
      have pushed: "\<forall>p\<in>set (subdirPaths fs (last stack)). strictlyBelow root p"
        using subdir_below[OF "1.prems"(1) d] by blast
      have "\<forall>p\<in>set (walkDirs fs (butlast stack @ subdirPaths fs (last stack)) (visited @ [last stack])).
              p = root \<or> strictlyBelow root p"
        using False nv "1.prems" bs pushed d
        by (intro "1.IH"(2)[of "last stack" "butlast stack"]) auto
      with False nv show ?thesis by (subst walkDirs.simps) (simp add: Let_def)
    qed
  qed
qed

lemma sweepStep_keeps:
  "kept root st \<Longrightarrow> dir = root \<or> strictlyBelow root dir \<Longrightarrow> kept root (sweepStep root st dir)"
proof (cases "dir = root")
  case True
  assume "kept root st"
  with True show ?thesis by (simp add: sweepStep_def)
next
  case False
  assume k: "kept root st" and "dir = root \<or> strictlyBelow root dir"
  with False have b: "strictlyBelow root dir" by simp
  from k have "isDirAt (fst st) root" "plainTree (fst st)" by (simp_all add: kept_def)
  from tryRemove_keeps[OF b this] k b False show ?thesis
    by (simp add: sweepStep_def kept_def)
qed

lemma sweep_keeps:
  "kept root st \<Longrightarrow> \<forall>d\<in>set ds. d = root \<or> strictlyBelow root d \<Longrightarrow>
   kept root (foldl (sweepStep root) st ds)"
  by (induction ds arbitrary: st) (simp_all add: sweepStep_keeps)

lemma pruneAll_keeps: "kept root st \<Longrightarrow> kept root (pruneAllEmptyDirs root st)"
proof -
  assume k: "kept root st"
  then have pl: "plainTree (fst st)" by (simp add: kept_def)
  have "\<forall>p\<in>set (walkDirs (fst st) [root] []). p = root \<or> strictlyBelow root p"
    using pl by (rule walkDirs_below) simp
  then have "\<forall>d\<in>set (longestFirst (walkDirs (fst st) [root] [])). d = root \<or> strictlyBelow root d"
    by (simp add: longestFirst_def)
  from sweep_keeps[OF k this] show ?thesis by (simp add: pruneAllEmptyDirs_def Let_def)
qed

lemma removeEmptyUpwards_not_root:
  "root \<notin> set (snd st) \<Longrightarrow> root \<notin> set (snd (removeEmptyUpwards current root st))"
proof (induction current root st rule: removeEmptyUpwards.induct)
  case (1 current stopAt fs tried)
  show ?case
  proof (cases "current = stopAt \<or> take 2 (relative stopAt current) = ''..'' \<or>
                relative stopAt current = []")
    case True
    with "1.prems" show ?thesis by (subst removeEmptyUpwards.simps) (auto simp: Let_def)
  next
    case False
    then have ne: "current \<noteq> stopAt"
      and rel: "\<not> (take 2 (relative stopAt current) = ''..'' \<or> relative stopAt current = [])"
      by auto
    obtain removed fs' where t: "tryRemoveIfEffectivelyEmpty fs current = (removed, fs')"
      by (cases "tryRemoveIfEffectivelyEmpty fs current")
    from "1.prems" ne have n': "stopAt \<notin> set (snd (fs', tried @ [current]))" by auto
    show ?thesis
    proof (cases removed)
      case True
      have "stopAt \<notin> set (snd (removeEmptyUpwards (dirname current) stopAt (fs', tried @ [current])))"
        using ne rel t True n'
        by (intro "1.IH"[of "relative stopAt current" "(removed, fs')" removed fs']) simp_all
      with ne rel t True show ?thesis
        by (subst removeEmptyUpwards.simps) (simp add: Let_def)
    next
      case False
      with ne rel t n' show ?thesis
        by (subst removeEmptyUpwards.simps) (simp add: Let_def)
    qed
  qed
qed

lemma cleanup_not_root:
  "root \<notin> set (snd st) \<Longrightarrow> root \<notin> set (snd (cleanupEmptyDirectories dirs root st))"
proof -
  have "root \<notin> set (snd st) \<Longrightarrow>
        root \<notin> set (snd (foldl (\<lambda>st dir. removeEmptyUpwards dir root st) st ds))" for ds
    by (induction ds arbitrary: st) (simp_all add: removeEmptyUpwards_not_root)
  then show "root \<notin> set (snd st) \<Longrightarrow> root \<notin> set (snd (cleanupEmptyDirectories dirs root st))"
    by (simp add: cleanupEmptyDirectories_def)
qed

lemma sweep_not_root:
  "root \<notin> set (snd st) \<Longrightarrow> root \<notin> set (snd (foldl (sweepStep root) st ds))"
  by (induction ds arbitrary: st) (simp_all add: sweepStep_def)

text \<open>
  C10.  Directory pruning never attempts the configured root: neither the upward walks
  of \<open>cleanupEmptyDirectories\<close> nor the sweep of \<open>pruneAllEmptyDirs\<close> calls
  \<open>tryRemoveIfEffectivelyEmpty\<close> on it.  On a tree of plain names in which the root is
  a directory, every directory tried lies strictly below the root, and the root is still
  a directory afterwards, empty or not.
\<close>

theorem root_never_pruned:
  "root \<notin> set (snd (cleanupEmptyDirectories candidates root (fs, []))) \<and>
   root \<notin> set (snd (pruneAfterExecution candidates root fs)) \<and>
   (isDirAt fs root \<longrightarrow> plainTree fs \<longrightarrow>
      isDirAt (fst (pruneAfterExecution candidates root fs)) root \<and>
      (\<forall>p\<in>set (snd (pruneAfterExecution candidates root fs)). strictlyBelow root p))"
proof -
  have a: "root \<notin> set (snd (cleanupEmptyDirectories candidates root (fs, [])))"
    by (rule cleanup_not_root) simp
  then have b: "root \<notin> set (snd (pruneAfterExecution candidates root fs))"
    unfolding pruneAfterExecution_def pruneAllEmptyDirs_def Let_def by (rule sweep_not_root)
  have c: "isDirAt (fst (pruneAfterExecution candidates root fs)) root \<and>
      (\<forall>p\<in>set (snd (pruneAfterExecution candidates root fs)). strictlyBelow root p)"
    if "isDirAt fs root" "plainTree fs"
  proof -
    from that have "kept root (fs, [])" by (simp add: kept_def)
    then have "kept root (pruneAfterExecution candidates root fs)"
      unfolding pruneAfterExecution_def by (intro pruneAll_keeps cleanup_keeps)
    then show ?thesis by (simp add: kept_def)
  qed
  from a b c show ?thesis by blast
qed

theorem root_never_pruned_witness:
  "isDirAt fs_empty [''r''] \<and> plainTree fs_empty \<and>
   pruneAfterExecution [[''r''], [''r'', ''a''], [''r'', ''a'', ''b'']] [''r''] fs_empty =
     (DirT [(''r'', DirT [])], [[''r'', ''a'', ''b''], [''r'', ''a''], [''r'', ''a''], [''r'', ''c'']]) \<and>
   [''r''] \<notin> set (snd (pruneAfterExecution [[''r''], [''r'', ''a''], [''r'', ''a'', ''b'']] [''r''] fs_empty)) \<and>
   isDirAt (fst (pruneAfterExecution [[''r''], [''r'', ''a''], [''r'', ''a'', ''b'']] [''r''] fs_empty)) [''r'']"
proof -
  have d: "isDirAt fs_empty [''r'']" by code_simp
  have p: "plainTree fs_empty" by code_simp
  have e: "pruneAfterExecution [[''r''], [''r'', ''a''], [''r'', ''a'', ''b'']] [''r''] fs_empty =
     (DirT [(''r'', DirT [])], [[''r'', ''a'', ''b''], [''r'', ''a''], [''r'', ''a''], [''r'', ''c'']])"
    by code_simp
  from root_never_pruned[of "[''r'']" "[[''r''], [''r'', ''a''], [''r'', ''a'', ''b'']]" fs_empty] d p e
  show ?thesis by blast
qed

end
